theory Spec2Isabelle
  imports Main "HOL-Library.Word"
begin

section \<open>Go strings\<close>

text \<open>
  A Go string is a sequence of bytes: \<open>string\<close> (a \<open>char list\<close>) here. The functions of
  package \<open>strings\<close> that the harvester calls are written out.
\<close>

definition TrimRight :: "string \<Rightarrow> string \<Rightarrow> string" where
  \<comment> \<open>\<open>strings.TrimRight(s, cutset)\<close>: every trailing byte that is in the cutset is removed.\<close>
  "TrimRight s cutset = rev (dropWhile (\<lambda>c. c \<in> set cutset) (rev s))"

definition HasPrefix :: "string \<Rightarrow> string \<Rightarrow> bool" where
  "HasPrefix s p = (take (length p) s = p)"

fun Contains :: "string \<Rightarrow> string \<Rightarrow> bool" where
  \<comment> \<open>\<open>strings.Contains(s, substr)\<close>\<close>
  "Contains [] substr = (substr = [])"
| "Contains (c # cs) substr = (HasPrefix (c # cs) substr \<or> Contains cs substr)"

definition LastIndex :: "string \<Rightarrow> string \<Rightarrow> int" where
  \<comment> \<open>\<open>strings.LastIndex(s, substr)\<close>: the start of the last occurrence, or \<open>-1\<close>.\<close>
  "LastIndex s substr =
     (case filter (\<lambda>i. HasPrefix (drop i s) substr) (rev [0..<Suc (length s)]) of
        [] \<Rightarrow> - 1
      | i # _ \<Rightarrow> int i)"

definition Index :: "string \<Rightarrow> string \<Rightarrow> int" where
  \<comment> \<open>\<open>strings.Index(s, substr)\<close>: the start of the first occurrence, or \<open>-1\<close>.\<close>
  "Index s substr =
     (case filter (\<lambda>i. HasPrefix (drop i s) substr) [0..<Suc (length s)] of
        [] \<Rightarrow> - 1
      | i # _ \<Rightarrow> int i)"

definition HasSuffix :: "string \<Rightarrow> string \<Rightarrow> bool" where
  "HasSuffix s p = (length p \<le> length s \<and> drop (length s - length p) s = p)"

definition Cut :: "string \<Rightarrow> char \<Rightarrow> string \<times> string" where
  \<comment> \<open>\<open>strings.Cut(s, sep)\<close> for a separator of one byte, without the flag it also returns.\<close>
  "Cut s sep = (takeWhile (\<lambda>c. c \<noteq> sep) s, drop 1 (dropWhile (\<lambda>c. c \<noteq> sep) s))"

definition ToLower :: "string \<Rightarrow> string" where
  \<comment> \<open>\<open>strings.ToLower\<close> on the letters a scheme is made of.\<close>
  "ToLower s =
     map (\<lambda>c. if 65 \<le> (of_char c :: nat) \<and> (of_char c :: nat) \<le> 90
               then char_of ((of_char c :: nat) + 32) else c) s"

section \<open>Package net/url\<close>

text \<open>
  \<open>url.URL\<close> is a struct of the standard library; the harvester reads and writes its
  fields \<open>Host\<close>, \<open>Path\<close> and \<open>Fragment\<close> and calls \<open>url.Parse\<close> and \<open>URL.String\<close>.
\<close>

datatype error = Err string | Wrapped string error | Panic string

record URL =
  Scheme :: string
  Opaque :: string
  User :: "(string \<times> string option) option"
  Host :: string
  Path :: string
  RawPath :: string
  OmitHost :: bool
  ForceQuery :: bool
  RawQuery :: string
  Fragment :: string
  RawFragment :: string

text \<open>
  The two library functions are parameters of the model: every theorem below that
  mentions a \<open>net_url\<close> holds for any parser and any printer.
\<close>

record net_url =
  url_Parse :: "string \<Rightarrow> error + URL"
  url_String :: "URL \<Rightarrow> string"

section \<open>Package node\<close>

text \<open>
  Nodes are heap objects that the tree, the harvester and the store share by pointer.
  The heap maps every address to a node and counts the allocations: \<open>cell h a\<close> is the
  node at address \<open>a\<close>, and the addresses below \<open>next h\<close> are the ones handed out so
  far. A pointer is \<open>None\<close> (nil) or \<open>Some a\<close>. \<open>Depth\<close> is a Go \<open>int\<close>: 64 bits, two's
  complement.
\<close>

type_synonym ptr = "nat option"

record WebNode =
  URL :: "URL option"
  Title :: string
  ContentType :: string
  Children :: "nat list"
  Parent :: ptr
  Depth :: "64 word"
  Metadata :: "(string \<times> string) list"

record heap =
  cell :: "nat \<Rightarrow> WebNode"
  "next" :: nat

definition blank_node :: WebNode where
  "blank_node = \<lparr>URL = None, Title = [], ContentType = [], Children = [], Parent = None,
                  Depth = 0, Metadata = []\<rparr>"

definition empty_heap :: heap where
  "empty_heap = \<lparr>cell = (\<lambda>a. blank_node), next = 0\<rparr>"

definition alloc :: "heap \<Rightarrow> WebNode \<Rightarrow> heap \<times> nat" where
  \<comment> \<open>\<open>&WebNode{...}\<close>: a new cell, and its address.\<close>
  "alloc h n = (h\<lparr>cell := (cell h)(next h := n), next := Suc (next h)\<rparr>, next h)"

definition NewWebNode :: "net_url \<Rightarrow> heap \<Rightarrow> string \<Rightarrow> ptr \<Rightarrow> error + (heap \<times> nat)" where
  "NewWebNode L h urlStr parent =
     (case url_Parse L urlStr of
        Inl err \<Rightarrow> Inl err
      | Inr parsedURL \<Rightarrow>
          (let depth = (case parent of None \<Rightarrow> 0 | Some p \<Rightarrow> Depth (cell h p) + 1)
           in Inr (alloc h \<lparr>URL = Some parsedURL, Title = [], ContentType = ''text/html'',
                            Children = [], Parent = parent, Depth = depth, Metadata = []\<rparr>)))"

definition AddChild :: "heap \<Rightarrow> nat \<Rightarrow> ptr \<Rightarrow> heap" where
  \<comment> \<open>\<open>n.AddChild(child)\<close>\<close>
  "AddChild h n child =
     (case child of
        None \<Rightarrow> h
      | Some c \<Rightarrow> h\<lparr>cell := (cell h)(n := (cell h n)\<lparr>Children := Children (cell h n) @ [c]\<rparr>)\<rparr>)"

definition set_Title :: "heap \<Rightarrow> nat \<Rightarrow> string \<Rightarrow> heap" where
  \<comment> \<open>The assignment \<open>n.Title = title\<close>.\<close>
  "set_Title h n title = h\<lparr>cell := (cell h)(n := (cell h n)\<lparr>Title := title\<rparr>)\<rparr>"

section \<open>Package tree\<close>

record WebTree =
  RootNode :: ptr
  MaxDepth :: "64 word"
  VisitedURLs :: "string \<rightharpoonup> bool"

definition lookup_bool :: "(string \<rightharpoonup> bool) \<Rightarrow> string \<Rightarrow> bool" where
  \<comment> \<open>Reading a \<open>map[string]bool\<close>: a missing key reads as \<open>false\<close>.\<close>
  "lookup_bool m k = (case m k of None \<Rightarrow> False | Some b \<Rightarrow> b)"

definition NewWebTree :: "net_url \<Rightarrow> heap \<Rightarrow> string \<Rightarrow> 64 word \<Rightarrow> error + (heap \<times> WebTree)" where
  "NewWebTree L h rootURL maxDepth =
     (case NewWebNode L h rootURL None of
        Inl err \<Rightarrow> Inl (Wrapped ''failed to create root node'' err)
      | Inr (h', rootNode) \<Rightarrow>
          Inr (h', \<lparr>RootNode = Some rootNode, MaxDepth = maxDepth, VisitedURLs = Map.empty\<rparr>))"

definition normalizeURL :: "net_url \<Rightarrow> URL option \<Rightarrow> string" where
  "normalizeURL L u =
     (case u of
        None \<Rightarrow> []
      | Some u' \<Rightarrow>
          (let result = u'\<lparr>Fragment := []\<rparr>;
               path = TrimRight (Path result) ''/''
           in url_String L (result\<lparr>Path := path\<rparr>)))"

text \<open>
  \<open>AddURL\<close> returns the new heap and tree together with Go's pair \<open>(*WebNode, error)\<close>:
  \<open>Inl err\<close> for \<open>(nil, err)\<close>, \<open>Inr None\<close> for \<open>(nil, nil)\<close>, \<open>Inr (Some p)\<close> for a node.
\<close>

definition AddURL ::
  "net_url \<Rightarrow> heap \<times> WebTree \<Rightarrow> string \<Rightarrow> ptr \<Rightarrow> (heap \<times> WebTree) \<times> (error + ptr)" where
  "AddURL L s urlStr parentNode =
     (let h = fst s; t = snd s in
      case url_Parse L urlStr of
        Inl err \<Rightarrow> (s, Inl err)
      | Inr parsedURL \<Rightarrow>
          (let urlKey = normalizeURL L (Some parsedURL) in
           if lookup_bool (VisitedURLs t) urlKey then (s, Inr None)
           else
             (case NewWebNode L h urlStr parentNode of
                Inl err \<Rightarrow> (s, Inl err)
              | Inr (h1, newNode) \<Rightarrow>
                  (let h2 = (case parentNode of
                               None \<Rightarrow> h1
                             | Some p \<Rightarrow> AddChild h1 p (Some newNode))
                   in ((h2, t\<lparr>VisitedURLs := (VisitedURLs t)(urlKey \<mapsto> True)\<rparr>),
                       Inr (Some newNode))))))"

definition IsVisited :: "net_url \<Rightarrow> WebTree \<Rightarrow> string \<Rightarrow> bool" where
  "IsVisited L t urlStr =
     (case url_Parse L urlStr of
        Inl err \<Rightarrow> False
      | Inr parsedURL \<Rightarrow> lookup_bool (VisitedURLs t) (normalizeURL L (Some parsedURL)))"

definition IsAllowedDepth :: "WebTree \<Rightarrow> 64 word \<Rightarrow> bool" where
  "IsAllowedDepth t depth = (MaxDepth t \<le>s 0 \<or> depth \<le>s MaxDepth t)"

text \<open>
  \<open>findNodeRecursive\<close> follows child pointers, so on a cyclic heap the Go function does
  not return. The model carries fuel, the depth of recursion still allowed: \<open>None\<close> means
  that the fuel ran out, \<open>Some r\<close> that the search returned the pointer \<open>r\<close>.
  \<open>findNodeChildren\<close> is the \<open>for\<close> loop over \<open>current.Children\<close>.
\<close>

definition sameURL :: "net_url \<Rightarrow> URL \<Rightarrow> URL \<Rightarrow> bool" where
  \<comment> \<open>The comparison of \<open>findNodeRecursive\<close>: both fragments cleared, then \<open>String()\<close>.\<close>
  "sameURL L currentURL target =
     (url_String L (currentURL\<lparr>Fragment := []\<rparr>) = url_String L (target\<lparr>Fragment := []\<rparr>))"

definition matches :: "net_url \<Rightarrow> heap \<Rightarrow> URL \<Rightarrow> nat \<Rightarrow> bool" where
  \<comment> \<open>The test \<open>findNodeRecursive\<close> makes on the node at an address.\<close>
  "matches L h target a =
     (case URL (cell h a) of None \<Rightarrow> False | Some currentURL \<Rightarrow> sameURL L currentURL target)"

fun findNodeRecursive :: "nat \<Rightarrow> net_url \<Rightarrow> heap \<Rightarrow> ptr \<Rightarrow> URL \<Rightarrow> ptr option"
  and findNodeChildren :: "nat \<Rightarrow> net_url \<Rightarrow> heap \<Rightarrow> nat list \<Rightarrow> URL \<Rightarrow> ptr option" where
  "findNodeRecursive k L h None target = Some None"
| "findNodeRecursive 0 L h (Some a) target = None"
| "findNodeRecursive (Suc k) L h (Some a) target =
     (if matches L h target a then Some (Some a)
      else findNodeChildren k L h (Children (cell h a)) target)"
| "findNodeChildren k L h [] target = Some None"
| "findNodeChildren k L h (child # rest) target =
     (case findNodeRecursive k L h (Some child) target of
        None \<Rightarrow> None
      | Some (Some found) \<Rightarrow> Some (Some found)
      | Some None \<Rightarrow> findNodeChildren k L h rest target)"

definition FindNode :: "net_url \<Rightarrow> heap \<times> WebTree \<Rightarrow> string \<Rightarrow> ptr option" where
  \<comment> \<open>The fuel is the number of nodes: enough for every heap the package can build.\<close>
  "FindNode L s urlStr =
     (case url_Parse L urlStr of
        Inl err \<Rightarrow> Some None
      | Inr targetURL \<Rightarrow>
          findNodeRecursive (next (fst s)) L (fst s) (RootNode (snd s)) targetURL)"

section \<open>Package storage\<close>

text \<open>
  The XML store. The mutex, the ticker and the stop channel of \<open>XMLStorage\<close> belong to
  the scheduling of goroutines and are left out; what remains is the document. The time
  stamp of a save (\<open>time.Now()\<close>, formatted) is an argument.
\<close>

record XMLPage =
  page_URL :: string
  page_Title :: string
  page_Path :: string
  LastFetched :: string
  Content :: string
  Links :: "string list"

record XMLDocument =
  doc_RootURL :: string
  CreatedAt :: string
  Pages :: "XMLPage list"
  pagesByURL :: "string \<rightharpoonup> nat"

record XMLStorage =
  FilePath :: string
  Document :: XMLDocument

definition NewXMLStorage :: "error option \<Rightarrow> string \<Rightarrow> string \<Rightarrow> string \<Rightarrow> error + XMLStorage" where
  \<comment> \<open>\<open>mkdir\<close> is what \<open>os.MkdirAll\<close> returned, \<open>now\<close> the formatted time of creation.\<close>
  "NewXMLStorage mkdir now filePath rootURL =
     (case mkdir of
        Some err \<Rightarrow> Inl (Wrapped ''failed to create directory'' err)
      | None \<Rightarrow>
          Inr \<lparr>FilePath = filePath,
               Document = \<lparr>doc_RootURL = rootURL, CreatedAt = now, Pages = [],
                           pagesByURL = Map.empty\<rparr>\<rparr>)"

definition childLinks :: "net_url \<Rightarrow> heap \<Rightarrow> nat list \<Rightarrow> string list" where
  \<comment> \<open>The loop over \<open>webNode.Children\<close> that collects the URL of every child that has one.\<close>
  "childLinks L h children =
     concat (map (\<lambda>child. case URL (cell h child) of None \<Rightarrow> [] | Some u \<Rightarrow> [url_String L u])
                 children)"

definition XMLSaveNodeContent ::
  "net_url \<Rightarrow> string \<Rightarrow> heap \<Rightarrow> XMLStorage \<Rightarrow> ptr \<Rightarrow> string \<Rightarrow> XMLStorage \<times> error option" where
  "XMLSaveNodeContent L now h s webNode content =
     (case webNode of
        None \<Rightarrow> (s, Some (Err ''invalid node or URL''))
      | Some n \<Rightarrow>
          (case URL (cell h n) of
             None \<Rightarrow> (s, Some (Err ''invalid node or URL''))
           | Some u \<Rightarrow>
               (let urlStr = url_String L u;
                    path = Path u;
                    links = childLinks L h (Children (cell h n));
                    page = \<lparr>page_URL = urlStr, page_Title = Title (cell h n), page_Path = path,
                            LastFetched = now, Content = content, Links = links\<rparr>;
                    d = Document s
                in case pagesByURL d urlStr of
                     Some idx \<Rightarrow>
                       if idx < length (Pages d)
                       then (s\<lparr>Document := d\<lparr>Pages := (Pages d)[idx := page]\<rparr>\<rparr>, None)
                       else (s, Some (Panic ''index out of range''))
                   | None \<Rightarrow>
                       (s\<lparr>Document := d\<lparr>Pages := Pages d @ [page],
                                        pagesByURL := (pagesByURL d)(urlStr \<mapsto> length (Pages d))\<rparr>\<rparr>,
                        None))))"

section \<open>Package harvester\<close>

text \<open>The two implementations of the interface \<open>Storage\<close>.\<close>

datatype Storage = NullStorage | XML XMLStorage

definition SaveNodeContent ::
  "net_url \<Rightarrow> string \<Rightarrow> heap \<Rightarrow> Storage \<Rightarrow> ptr \<Rightarrow> string \<Rightarrow> Storage \<times> error option" where
  "SaveNodeContent L now h st webNode content =
     (case st of
        NullStorage \<Rightarrow> (NullStorage, None)
      | XML s \<Rightarrow>
          (case XMLSaveNodeContent L now h s webNode content of (s', r) \<Rightarrow> (XML s', r)))"

definition CreateIndexFile :: "Storage \<Rightarrow> string \<Rightarrow> error option" where
  "CreateIndexFile st path = None"

text \<open>What the harvester prints, one constructor for each format string.\<close>

datatype out_line =
    PDownloading string
  | PFound nat
  | PCurrentPath string
  | PParentPath string
  | PLinkPath string
  | PAccepted string
  | PFilteredDuplicated string
  | PFilteredNotParent string
  | PFailedFetch string error
  | PFailedExtract string error
  | PFailedSave string error
  | PFailedIndex error

text \<open>
  The collaborators. \<open>FetchPage\<close> is a network request: its answer may depend on the
  requests made before, which it receives as its first argument. \<open>ExtractTitle\<close> and the
  walk of \<open>ExtractLinks\<close> over the anchors of a page read a parsed HTML document, of a
  type \<open>'doc\<close> that the model leaves open. \<open>ExtractContent\<close> changes the document it is
  given: it removes the \<open>nav\<close>, \<open>header\<close>, \<open>footer\<close>, \<open>aside\<close>, \<open>script\<close>,
  \<open>style\<close>, \<open>iframe\<close> and \<open>noscript\<close> elements of the body before it renders it, so
  it returns the content together with the document as it leaves it; without a body it
  fails and has changed nothing. \<open>Now\<close> is the clock, read after the given requests.
\<close>

record 'doc env =
  FetchPage :: "string list \<Rightarrow> string \<Rightarrow> error + 'doc"
  ExtractTitle :: "'doc \<Rightarrow> string"
  anchors :: "'doc \<Rightarrow> URL \<Rightarrow> string list"
  ExtractContent :: "'doc \<Rightarrow> error + string \<times> 'doc"
  Now :: "string list \<Rightarrow> string"

definition ExtractLinks :: "net_url \<Rightarrow> 'doc env \<Rightarrow> 'doc \<Rightarrow> string \<Rightarrow> error + string list" where
  "ExtractLinks L E doc baseURLStr =
     (case url_Parse L baseURLStr of
        Inl err \<Rightarrow> Inl (Wrapped ''invalid base URL'' err)
      | Inr baseURL \<Rightarrow> Inr (anchors E doc baseURL))"

text \<open>
  \<open>HarvesterContext\<close> with the fields of the Go struct (the crawler and the extractor
  have no state of their own: they are the \<open>env\<close>). A \<open>run_state\<close> adds what a run
  changes outside the struct: the heap of nodes, the lines printed and the requests made.
\<close>

record HarvesterContext =
  WebTree :: WebTree
  Storage :: Storage
  RootURL :: string
  BaseURL :: string
  hc_MaxDepth :: "64 word"
  Debug :: bool
  DownloadAll :: bool
  PrintedURLs :: "string \<rightharpoonup> bool"

record run_state = HarvesterContext +
  nodes :: heap
  stdout :: "out_line list"
  fetched :: "string list"

definition NewExplorerContext :: "net_url \<Rightarrow> string \<Rightarrow> 64 word \<Rightarrow> bool \<Rightarrow> error + run_state" where
  "NewExplorerContext L rootURL maxDepth debug =
     (case NewWebTree L empty_heap rootURL maxDepth of
        Inl err \<Rightarrow> Inl (Wrapped ''failed to create web tree'' err)
      | Inr (h, webTree) \<Rightarrow>
          Inr \<lparr>WebTree = webTree, Storage = NullStorage, RootURL = rootURL, BaseURL = rootURL,
               hc_MaxDepth = maxDepth, Debug = debug, DownloadAll = False,
               PrintedURLs = Map.empty, nodes = h, stdout = [], fetched = []\<rparr>)"

definition NewXMLDownloaderContext ::
  "net_url \<Rightarrow> error option \<Rightarrow> string \<Rightarrow> string \<Rightarrow> string \<Rightarrow> string \<Rightarrow> 64 word \<Rightarrow> bool
     \<Rightarrow> error + run_state" where
  "NewXMLDownloaderContext L mkdir now rootURL xmlFilePath baseURL maxDepth debug =
     (case NewWebTree L empty_heap rootURL maxDepth of
        Inl err \<Rightarrow> Inl (Wrapped ''failed to create web tree'' err)
      | Inr (h, webTree) \<Rightarrow>
          (case NewXMLStorage mkdir now xmlFilePath rootURL of
             Inl err \<Rightarrow> Inl (Wrapped ''failed to create XML storage'' err)
           | Inr s \<Rightarrow>
               Inr \<lparr>WebTree = webTree, Storage = XML s, RootURL = rootURL, BaseURL = baseURL,
                    hc_MaxDepth = maxDepth, Debug = debug, DownloadAll = False,
                    PrintedURLs = Map.empty, nodes = h, stdout = [], fetched = []\<rparr>))"

text \<open>
  \<open>isParentURL\<close> prints three lines when \<open>Debug\<close> is set: it returns the lines it
  printed together with its verdict.
\<close>

definition isParentURL :: "net_url \<Rightarrow> run_state \<Rightarrow> string \<Rightarrow> out_line list \<times> bool" where
  "isParentURL L hc link =
     (case url_Parse L (RootURL hc) of
        Inl err \<Rightarrow> ([], False)
      | Inr currentURL \<Rightarrow>
          (case url_Parse L link of
             Inl err \<Rightarrow> ([], False)
           | Inr linkURL \<Rightarrow>
               if Host currentURL \<noteq> Host linkURL then ([], False)
               else
                 (let currentPath = TrimRight (Path currentURL) ''/'';
                      linkPath = TrimRight (Path linkURL) ''/'';
                      lastSlash = LastIndex currentPath ''/''
                  in if lastSlash = - 1 then ([], False)
                     else
                       (let parentPath = take (nat lastSlash) currentPath;
                            dbg = (if Debug hc
                                   then [PCurrentPath currentPath, PParentPath parentPath,
                                         PLinkPath linkPath]
                                   else [])
                        in if linkPath = parentPath then (dbg, True)
                           else if Contains parentPath ''prompt-engineering'' \<and>
                                   Contains linkPath ''prompt-engineering''
                           then (dbg, True)
                           else (dbg, False)))))"

definition removeFragment :: "net_url \<Rightarrow> string \<Rightarrow> string" where
  "removeFragment L linkStr =
     (case url_Parse L linkStr of
        Inl err \<Rightarrow> linkStr
      | Inr parsedURL \<Rightarrow> url_String L (parsedURL\<lparr>Fragment := []\<rparr>))"

definition print :: "out_line list \<Rightarrow> run_state \<Rightarrow> run_state" where
  "print ls s = s\<lparr>stdout := stdout s @ ls\<rparr>"

definition processLink :: "net_url \<Rightarrow> run_state \<Rightarrow> string \<Rightarrow> run_state" where
  "processLink L s link =
     (case isParentURL L s link of
        (dbg, accepted) \<Rightarrow>
          (let s0 = print dbg s in
           if accepted then
             (let cleanLink = removeFragment L link in
              if \<not> lookup_bool (PrintedURLs s0) cleanLink
              then (print [PAccepted cleanLink] s0)
                     \<lparr>PrintedURLs := (PrintedURLs s0)(cleanLink \<mapsto> True)\<rparr>
              else s0)
           else if Debug s0 then
             (if IsVisited L (WebTree s0) link then print [PFilteredDuplicated link] s0
              else print [PFilteredNotParent link] s0)
           else s0))"

definition Explore :: "net_url \<Rightarrow> 'doc env \<Rightarrow> run_state \<Rightarrow> run_state \<times> error option" where
  "Explore L E s =
     (let s1 = s\<lparr>fetched := fetched s @ [RootURL s]\<rparr> in
      case FetchPage E (fetched s) (RootURL s) of
        Inl err \<Rightarrow> (s1, Some (Wrapped ''failed to fetch the URL'' err))
      | Inr doc \<Rightarrow>
          (case RootNode (WebTree s1) of
             None \<Rightarrow> (s1, Some (Panic ''nil pointer dereference''))
           | Some rootNode \<Rightarrow>
               (let s2 = s1\<lparr>nodes := set_Title (nodes s1) rootNode (ExtractTitle E doc)\<rparr> in
                case ExtractLinks L E doc (RootURL s2) of
                  Inl err \<Rightarrow> (s2, Some (Wrapped ''failed to extract links'' err))
                | Inr links \<Rightarrow> (foldl (processLink L) s2 links, None))))"

text \<open>
  \<open>processLinkAndDownload\<close> calls \<open>FindNode\<close>, so it returns \<open>None\<close> where that search
  does not return.
\<close>

definition processLinkAndDownload ::
  "net_url \<Rightarrow> 'doc env \<Rightarrow> run_state \<Rightarrow> string \<Rightarrow> run_state option" where
  "processLinkAndDownload L E s link =
     (case isParentURL L s link of
        (dbg, accepted) \<Rightarrow>
          (let s0 = print dbg s in
           if accepted then
             (let cleanLink = removeFragment L link;
                  s1 = (if \<not> lookup_bool (PrintedURLs s0) cleanLink
                        then (print [PAccepted cleanLink] s0)
                               \<lparr>PrintedURLs := (PrintedURLs s0)(cleanLink \<mapsto> True)\<rparr>
                        else s0)
              in if DownloadAll s1 then
                   (case FindNode L (nodes s1, WebTree s1) (RootURL s1) of
                      None \<Rightarrow> None
                    | Some parsedURL \<Rightarrow>
                        (case AddURL L (nodes s1, WebTree s1) link parsedURL of
                           ((h, t), r) \<Rightarrow>
                             (let s2 = s1\<lparr>WebTree := t, nodes := h\<rparr> in
                              case r of
                                Inl err \<Rightarrow> Some s2
                              | Inr None \<Rightarrow> Some s2
                              | Inr (Some parsedLink) \<Rightarrow>
                                  (case URL (cell (nodes s2) parsedLink) of
                                     None \<Rightarrow> Some s2
                                   | Some u \<Rightarrow>
                                       (let target = url_String L u;
                                            s3 = s2\<lparr>fetched := fetched s2 @ [target]\<rparr>
                                        in case FetchPage E (fetched s2) target of
                                             Inl err \<Rightarrow> Some (print [PFailedFetch target err] s3)
                                           | Inr doc \<Rightarrow>
                                               (let s4 = s3\<lparr>nodes := set_Title (nodes s3) parsedLink
                                                                       (ExtractTitle E doc)\<rparr>
                                                in case ExtractContent E doc of
                                                     Inl err \<Rightarrow>
                                                       Some (print [PFailedExtract target err] s4)
                                                   | Inr (content, pruned) \<Rightarrow>
                                                       (case SaveNodeContent L (Now E (fetched s4))
                                                               (nodes s4) (Storage s4)
                                                               (Some parsedLink) content of
                                                          (st, Some err) \<Rightarrow>
                                                            Some (print [PFailedSave target err]
                                                                    (s4\<lparr>Storage := st\<rparr>))
                                                        | (st, None) \<Rightarrow>
                                                            Some (s4\<lparr>Storage := st\<rparr>))))))))
                 else Some s1)
           else if Debug s0 then
             (if IsVisited L (WebTree s0) link then Some (print [PFilteredDuplicated link] s0)
              else Some (print [PFilteredNotParent link] s0))
           else Some s0))"

fun processLinks :: "net_url \<Rightarrow> 'doc env \<Rightarrow> run_state \<Rightarrow> string list \<Rightarrow> run_state option" where
  \<comment> \<open>The loop \<open>for _, link := range links\<close> of \<open>Download\<close>.\<close>
  "processLinks L E s [] = Some s"
| "processLinks L E s (link # links) =
     (case processLinkAndDownload L E s link of
        None \<Rightarrow> None
      | Some s' \<Rightarrow> processLinks L E s' links)"

definition Download ::
  "net_url \<Rightarrow> 'doc env \<Rightarrow> run_state \<Rightarrow> (run_state \<times> error option) option" where
  "Download L E s =
     (let s0 = print [PDownloading (RootURL s)] s;
          s1 = s0\<lparr>fetched := fetched s0 @ [RootURL s0]\<rparr>
      in case FetchPage E (fetched s0) (RootURL s0) of
           Inl err \<Rightarrow> Some (s1, Some (Wrapped ''failed to fetch the URL'' err))
         | Inr doc \<Rightarrow>
             (case RootNode (WebTree s1) of
                None \<Rightarrow> Some (s1, Some (Panic ''nil pointer dereference''))
              | Some rootNode \<Rightarrow>
                  (let s2 = s1\<lparr>nodes := set_Title (nodes s1) rootNode (ExtractTitle E doc)\<rparr> in
                   case ExtractContent E doc of
                     Inl err \<Rightarrow> Some (s2, Some (Wrapped ''failed to extract content'' err))
                   | Inr (content, pruned) \<Rightarrow>
                       (case SaveNodeContent L (Now E (fetched s2)) (nodes s2) (Storage s2)
                               (Some rootNode) content of
                          (st, Some err) \<Rightarrow>
                            Some (s2\<lparr>Storage := st\<rparr>, Some (Wrapped ''failed to save content'' err))
                        | (st, None) \<Rightarrow>
                            (let s3 = s2\<lparr>Storage := st\<rparr> in
                             case ExtractLinks L E pruned (RootURL s3) of
                               Inl err \<Rightarrow> Some (s3, Some (Wrapped ''failed to extract links'' err))
                             | Inr links \<Rightarrow>
                                 (case processLinks L E (print [PFound (length links)] s3) links of
                                    None \<Rightarrow> None
                                  | Some s4 \<Rightarrow>
                                      (case URL (cell (nodes s4) rootNode) of
                                         None \<Rightarrow> Some (s4, None)
                                       | Some u \<Rightarrow>
                                           (case CreateIndexFile (Storage s4) (Path u) of
                                              None \<Rightarrow> Some (s4, None)
                                            | Some err \<Rightarrow>
                                                if Debug s4
                                                then Some (print [PFailedIndex err] s4, None)
                                                else Some (s4, None)))))))))"

subsection \<open>Blocks of the harvester\<close>

text \<open>
  The proofs below treat some blocks of \<open>processLink\<close>, \<open>processLinkAndDownload\<close> and
  \<open>Download\<close> one at a time. Each block is a function of its own here, and the three
  functions are shown to be composed of them.
\<close>

definition report :: "net_url \<Rightarrow> string \<Rightarrow> run_state \<Rightarrow> run_state" where
  \<comment> \<open>The block shared by both modes: print an accepted link once per \<open>cleanLink\<close>.\<close>
  "report L link s =
     (let cleanLink = removeFragment L link in
      if \<not> lookup_bool (PrintedURLs s) cleanLink
      then (print [PAccepted cleanLink] s)\<lparr>PrintedURLs := (PrintedURLs s)(cleanLink \<mapsto> True)\<rparr>
      else s)"

definition filtered :: "net_url \<Rightarrow> string \<Rightarrow> run_state \<Rightarrow> run_state" where
  \<comment> \<open>The \<open>else if hc.Debug\<close> branch shared by both modes.\<close>
  "filtered L link s =
     (if Debug s then
        (if IsVisited L (WebTree s) link then print [PFilteredDuplicated link] s
         else print [PFilteredNotParent link] s)
      else s)"

definition downloadLink :: "net_url \<Rightarrow> 'doc env \<Rightarrow> run_state \<Rightarrow> nat \<Rightarrow> run_state" where
  \<comment> \<open>The body of \<open>if parsedLink != nil && parsedLink.URL != nil\<close>.\<close>
  "downloadLink L E s parsedLink =
     (case URL (cell (nodes s) parsedLink) of
        None \<Rightarrow> s
      | Some u \<Rightarrow>
          (let target = url_String L u;
               s1 = s\<lparr>fetched := fetched s @ [target]\<rparr>
           in case FetchPage E (fetched s) target of
                Inl err \<Rightarrow> print [PFailedFetch target err] s1
              | Inr doc \<Rightarrow>
                  (let s2 = s1\<lparr>nodes := set_Title (nodes s1) parsedLink (ExtractTitle E doc)\<rparr> in
                   case ExtractContent E doc of
                     Inl err \<Rightarrow> print [PFailedExtract target err] s2
                   | Inr (content, pruned) \<Rightarrow>
                       (case SaveNodeContent L (Now E (fetched s2)) (nodes s2) (Storage s2)
                               (Some parsedLink) content of
                          (st, Some err) \<Rightarrow> print [PFailedSave target err] (s2\<lparr>Storage := st\<rparr>)
                        | (st, None) \<Rightarrow> s2\<lparr>Storage := st\<rparr>))))"

definition createIndex :: "run_state \<Rightarrow> nat \<Rightarrow> run_state" where
  \<comment> \<open>The last block of \<open>Download\<close>.\<close>
  "createIndex s rootNode =
     (case URL (cell (nodes s) rootNode) of
        None \<Rightarrow> s
      | Some u \<Rightarrow>
          (case CreateIndexFile (Storage s) (Path u) of
             None \<Rightarrow> s
           | Some err \<Rightarrow> if Debug s then print [PFailedIndex err] s else s))"

section \<open>Parsing and printing a URL\<close>

text \<open>
  For the concrete runs below the library parameters are instantiated with \<open>Parse\<close>
  and \<open>String\<close>, written after \<open>url.Parse\<close> and \<open>URL.String\<close> of package
  \<open>net/url\<close>, function by function and on strings of bytes. A \<open>*Userinfo\<close> is the
  user name with the password when one is set. An error carries the message of the
  library without the operand it quotes; \<open>url.Parse\<close> wraps it as
  \<open>parse "...": ...\<close>.
\<close>

datatype encoding =
    encodePath | encodePathSegment | encodeHost | encodeZone
  | encodeUserPassword | encodeQueryComponent | encodeFragment

definition alnum :: "char \<Rightarrow> bool" where
  "alnum c =
     (let n = (of_char c :: nat)
      in (97 \<le> n \<and> n \<le> 122) \<or> (65 \<le> n \<and> n \<le> 90) \<or> (48 \<le> n \<and> n \<le> 57))"

definition ishex :: "char \<Rightarrow> bool" where
  "ishex c =
     (let n = (of_char c :: nat)
      in (48 \<le> n \<and> n \<le> 57) \<or> (97 \<le> n \<and> n \<le> 102) \<or> (65 \<le> n \<and> n \<le> 70))"

definition unhex :: "char \<Rightarrow> nat" where
  "unhex c =
     (let n = (of_char c :: nat)
      in if 48 \<le> n \<and> n \<le> 57 then n - 48
         else if 97 \<le> n \<and> n \<le> 102 then n - 97 + 10
         else if 65 \<le> n \<and> n \<le> 70 then n - 65 + 10
         else 0)"

definition shouldEscape :: "char \<Rightarrow> encoding \<Rightarrow> bool" where
  "shouldEscape c mode =
     (if alnum c then False
      else if (mode = encodeHost \<or> mode = encodeZone) \<and>
              c \<in> set (''!$&()*+,;=:[]<>'' @ [CHR 0x27, CHR 0x22])
      then False
      else if c \<in> set ''-_.~'' then False
      else if c \<in> set ''$&+,/:;=?@'' \<and> mode = encodePath then c = CHR ''?''
      else if c \<in> set ''$&+,/:;=?@'' \<and> mode = encodePathSegment then c \<in> set ''/;,?''
      else if c \<in> set ''$&+,/:;=?@'' \<and> mode = encodeUserPassword then c \<in> set ''@/?:''
      else if c \<in> set ''$&+,/:;=?@'' \<and> mode = encodeQueryComponent then True
      else if c \<in> set ''$&+,/:;=?@'' \<and> mode = encodeFragment then False
      else if mode = encodeFragment \<and> c \<in> set ''!()*'' then False
      else True)"

fun unescape_check :: "encoding \<Rightarrow> string \<Rightarrow> error option" where
  \<comment> \<open>The first loop of \<open>unescape\<close>: are the escapes well formed?\<close>
  "unescape_check mode [] = None"
| "unescape_check mode (c # cs) =
     (if c = CHR ''%'' then
        (if length cs < 2 \<or> \<not> ishex (cs ! 0) \<or> \<not> ishex (cs ! 1)
         then Some (Err ''invalid URL escape'')
         else if mode = encodeHost \<and> unhex (cs ! 0) < 8 \<and> take 2 cs \<noteq> ''25''
         then Some (Err ''invalid URL escape'')
         else if mode = encodeZone \<and> take 2 cs \<noteq> ''25'' \<and>
                 char_of (unhex (cs ! 0) * 16 + unhex (cs ! 1)) \<noteq> CHR '' '' \<and>
                 shouldEscape (char_of (unhex (cs ! 0) * 16 + unhex (cs ! 1))) encodeHost
         then Some (Err ''invalid URL escape'')
         else unescape_check mode (drop 2 cs))
      else if (mode = encodeHost \<or> mode = encodeZone) \<and> (of_char c :: nat) < 128 \<and>
              shouldEscape c mode
      then Some (Err ''invalid character in host name'')
      else unescape_check mode cs)"

fun unescape_bytes :: "encoding \<Rightarrow> string \<Rightarrow> string" where
  \<comment> \<open>The second loop of \<open>unescape\<close>, on a string the first loop accepted.\<close>
  "unescape_bytes mode [] = []"
| "unescape_bytes mode (c # cs) =
     (if c = CHR ''%'' then
        char_of (unhex (cs ! 0) * 16 + unhex (cs ! 1)) # unescape_bytes mode (drop 2 cs)
      else if c = CHR ''+'' \<and> mode = encodeQueryComponent then CHR '' '' # unescape_bytes mode cs
      else c # unescape_bytes mode cs)"

definition unescape :: "string \<Rightarrow> encoding \<Rightarrow> error + string" where
  "unescape s mode =
     (case unescape_check mode s of
        Some err \<Rightarrow> Inl err
      | None \<Rightarrow> Inr (unescape_bytes mode s))"

definition upperhex :: "nat \<Rightarrow> char" where
  "upperhex n = ''0123456789ABCDEF'' ! n"

definition escape :: "string \<Rightarrow> encoding \<Rightarrow> string" where
  "escape s mode =
     concat (map (\<lambda>c. if c = CHR '' '' \<and> mode = encodeQueryComponent then ''+''
                       else if shouldEscape c mode
                       then [CHR ''%'', upperhex ((of_char c :: nat) div 16),
                             upperhex ((of_char c :: nat) mod 16)]
                       else [c]) s)"

definition validEncoded :: "string \<Rightarrow> encoding \<Rightarrow> bool" where
  "validEncoded s mode =
     list_all (\<lambda>c. c \<in> set (''!$&()*+,;=:@[]%'' @ [CHR 0x27]) \<or> \<not> shouldEscape c mode) s"

definition stringContainsCTLByte :: "string \<Rightarrow> bool" where
  "stringContainsCTLByte s = list_ex (\<lambda>c. (of_char c :: nat) < 32 \<or> (of_char c :: nat) = 127) s"

fun scanScheme :: "string \<Rightarrow> string \<Rightarrow> string \<Rightarrow> error + (string \<times> string)" where
  "scanScheme rawURL seen [] = Inr ([], rawURL)"
| "scanScheme rawURL seen (c # cs) =
     (if c \<in> set ''abcdefghijklmnopqrstuvwxyzABCDEFGHIJKLMNOPQRSTUVWXYZ''
      then scanScheme rawURL (seen @ [c]) cs
      else if c \<in> set ''0123456789+-.''
      then (if seen = [] then Inr ([], rawURL) else scanScheme rawURL (seen @ [c]) cs)
      else if c = CHR '':''
      then (if seen = [] then Inl (Err ''missing protocol scheme'') else Inr (seen, cs))
      else Inr ([], rawURL))"

definition getScheme :: "string \<Rightarrow> error + (string \<times> string)" where
  "getScheme rawURL = scanScheme rawURL [] rawURL"

definition validOptionalPort :: "string \<Rightarrow> bool" where
  "validOptionalPort port =
     (port = [] \<or>
      (hd port = CHR '':'' \<and>
       list_all (\<lambda>b. 48 \<le> (of_char b :: nat) \<and> (of_char b :: nat) \<le> 57) (tl port)))"

definition validUserinfo :: "string \<Rightarrow> bool" where
  "validUserinfo s =
     list_all (\<lambda>r. alnum r \<or> r \<in> set (''-._:~!$&()*+,;=%@'' @ [CHR 0x27])) s"

definition parseHost :: "string \<Rightarrow> error + string" where
  "parseHost host =
     (if HasPrefix host ''['' then
        (let i = LastIndex host '']'' in
         if i < 0 then Inl (Err (''missing '' @ [CHR 0x27] @ '']'' @ [CHR 0x27] @ '' in host''))
         else if \<not> validOptionalPort (drop (nat i + 1) host)
         then Inl (Err ''invalid port after host'')
         else
           (let zone = Index (take (nat i) host) ''%25'' in
            if zone \<ge> 0 then
              (case unescape (take (nat zone) host) encodeHost of
                 Inl err \<Rightarrow> Inl err
               | Inr host1 \<Rightarrow>
                   (case unescape (take (nat i - nat zone) (drop (nat zone) host)) encodeZone of
                      Inl err \<Rightarrow> Inl err
                    | Inr host2 \<Rightarrow>
                        (case unescape (drop (nat i) host) encodeHost of
                           Inl err \<Rightarrow> Inl err
                         | Inr host3 \<Rightarrow> Inr (host1 @ host2 @ host3))))
            else unescape host encodeHost))
      else if LastIndex host '':'' \<noteq> - 1 \<and>
              \<not> validOptionalPort (drop (nat (LastIndex host '':'')) host)
      then Inl (Err ''invalid port after host'')
      else unescape host encodeHost)"

definition parseAuthority ::
  "string \<Rightarrow> error + ((string \<times> string option) option \<times> string)" where
  "parseAuthority authority =
     (let i = LastIndex authority ''@'' in
      case (if i < 0 then parseHost authority else parseHost (drop (nat i + 1) authority)) of
        Inl err \<Rightarrow> Inl err
      | Inr host \<Rightarrow>
          if i < 0 then Inr (None, host)
          else
            (let userinfo = take (nat i) authority in
             if \<not> validUserinfo userinfo then Inl (Err ''net/url: invalid userinfo'')
             else if CHR '':'' \<notin> set userinfo then
               (case unescape userinfo encodeUserPassword of
                  Inl err \<Rightarrow> Inl err
                | Inr username \<Rightarrow> Inr (Some (username, None), host))
             else
               (case Cut userinfo (CHR '':'') of
                  (username0, password0) \<Rightarrow>
                    (case unescape username0 encodeUserPassword of
                       Inl err \<Rightarrow> Inl err
                     | Inr username \<Rightarrow>
                         (case unescape password0 encodeUserPassword of
                            Inl err \<Rightarrow> Inl err
                          | Inr password \<Rightarrow> Inr (Some (username, Some password), host))))))"

definition setPath :: "URL \<Rightarrow> string \<Rightarrow> error + URL" where
  "setPath u p =
     (case unescape p encodePath of
        Inl err \<Rightarrow> Inl err
      | Inr path \<Rightarrow>
          Inr (u\<lparr>Path := path, RawPath := (if p = escape path encodePath then [] else p)\<rparr>))"

definition setFragment :: "URL \<Rightarrow> string \<Rightarrow> error + URL" where
  "setFragment u f =
     (case unescape f encodeFragment of
        Inl err \<Rightarrow> Inl err
      | Inr frag \<Rightarrow>
          Inr (u\<lparr>Fragment := frag,
                 RawFragment := (if f = escape frag encodeFragment then [] else f)\<rparr>))"

definition new_URL :: URL where
  \<comment> \<open>\<open>new(URL)\<close>: every field has its zero value.\<close>
  "new_URL = \<lparr>Scheme = [], Opaque = [], User = None, Host = [], Path = [], RawPath = [],
              OmitHost = False, ForceQuery = False, RawQuery = [], Fragment = [],
              RawFragment = []\<rparr>"

definition parse :: "string \<Rightarrow> error + URL" where
  \<comment> \<open>\<open>parse(rawURL, false)\<close>\<close>
  "parse rawURL =
     (if stringContainsCTLByte rawURL then Inl (Err ''net/url: invalid control character in URL'')
      else if rawURL = ''*'' then Inr (new_URL\<lparr>Path := ''*''\<rparr>)
      else
        (case getScheme rawURL of
           Inl err \<Rightarrow> Inl err
         | Inr (scheme, rest0) \<Rightarrow>
             (let url0 = new_URL\<lparr>Scheme := ToLower scheme\<rparr>;
                  force = (HasSuffix rest0 ''?'' \<and> length (filter (\<lambda>c. c = CHR ''?'') rest0) = 1);
                  rest1 = (if force then butlast rest0 else fst (Cut rest0 (CHR ''?'')));
                  url1 = (if force then url0\<lparr>ForceQuery := True\<rparr>
                          else url0\<lparr>RawQuery := snd (Cut rest0 (CHR ''?''))\<rparr>)
              in if \<not> HasPrefix rest1 ''/'' \<and> Scheme url1 \<noteq> []
                 then Inr (url1\<lparr>Opaque := rest1\<rparr>)
                 else if \<not> HasPrefix rest1 ''/'' \<and> CHR '':'' \<in> set (fst (Cut rest1 (CHR ''/'')))
                 then Inl (Err ''first path segment in URL cannot contain colon'')
                 else if (Scheme url1 \<noteq> [] \<or> \<not> HasPrefix rest1 ''///'') \<and> HasPrefix rest1 ''//''
                 then
                   (let authority0 = drop 2 rest1;
                        i = Index authority0 ''/'';
                        authority = (if i \<ge> 0 then take (nat i) authority0 else authority0);
                        rest = (if i \<ge> 0 then drop (nat i) authority0 else [])
                    in case parseAuthority authority of
                         Inl err \<Rightarrow> Inl err
                       | Inr (user, host) \<Rightarrow> setPath (url1\<lparr>User := user, Host := host\<rparr>) rest)
                 else if Scheme url1 \<noteq> [] \<and> HasPrefix rest1 ''/''
                 then setPath (url1\<lparr>OmitHost := True\<rparr>) rest1
                 else setPath url1 rest1)))"

definition Parse :: "string \<Rightarrow> error + URL" where
  "Parse rawURL =
     (case Cut rawURL (CHR ''#'') of
        (u, frag) \<Rightarrow>
          (case parse u of
             Inl err \<Rightarrow> Inl (Wrapped ''parse'' err)
           | Inr url \<Rightarrow>
               if frag = [] then Inr url
               else
                 (case setFragment url frag of
                    Inl err \<Rightarrow> Inl (Wrapped ''parse'' err)
                  | Inr url' \<Rightarrow> Inr url')))"

definition EscapedPath :: "URL \<Rightarrow> string" where
  "EscapedPath u =
     (if RawPath u \<noteq> [] \<and> validEncoded (RawPath u) encodePath \<and>
         unescape (RawPath u) encodePath = Inr (Path u)
      then RawPath u
      else if Path u = ''*'' then ''*''
      else escape (Path u) encodePath)"

definition EscapedFragment :: "URL \<Rightarrow> string" where
  "EscapedFragment u =
     (if RawFragment u \<noteq> [] \<and> validEncoded (RawFragment u) encodeFragment \<and>
         unescape (RawFragment u) encodeFragment = Inr (Fragment u)
      then RawFragment u
      else escape (Fragment u) encodeFragment)"

definition Userinfo_String :: "string \<times> string option \<Rightarrow> string" where
  "Userinfo_String ui =
     escape (fst ui) encodeUserPassword @
     (case snd ui of None \<Rightarrow> [] | Some password \<Rightarrow> '':'' @ escape password encodeUserPassword)"

definition String :: "URL \<Rightarrow> string" where
  "String u =
     (let scheme = (if Scheme u \<noteq> [] then Scheme u @ '':'' else []);
          query = (if ForceQuery u \<or> RawQuery u \<noteq> [] then ''?'' @ RawQuery u else []);
          frag = (if Fragment u \<noteq> [] then ''#'' @ EscapedFragment u else [])
      in if Opaque u \<noteq> [] then scheme @ Opaque u @ query @ frag
         else
           (let authority =
                  (if (Scheme u \<noteq> [] \<or> Host u \<noteq> [] \<or> User u \<noteq> None) \<and>
                      \<not> (OmitHost u \<and> Host u = [] \<and> User u = None)
                   then (if Host u \<noteq> [] \<or> Path u \<noteq> [] \<or> User u \<noteq> None then ''//'' else []) @
                        (case User u of None \<Rightarrow> [] | Some ui \<Rightarrow> Userinfo_String ui @ ''@'') @
                        (if Host u \<noteq> [] then escape (Host u) encodeHost else [])
                   else []);
                path = EscapedPath u;
                slash = (if path \<noteq> [] \<and> hd path \<noteq> CHR ''/'' \<and> Host u \<noteq> [] then ''/'' else []);
                buf = scheme @ authority @ slash;
                dot = (if buf = [] \<and> CHR '':'' \<in> set (fst (Cut path (CHR ''/''))) then ''./'' else [])
            in buf @ dot @ path @ query @ frag))"

definition go_url :: net_url where
  "go_url = \<lparr>url_Parse = Parse, url_String = String\<rparr>"

section \<open>Notions of the specification\<close>

text \<open>
  The canonical form of a URL string: fragment dropped, trailing slashes of the path
  stripped. It is the key \<open>AddURL\<close> computes; an unparsable string has none.
\<close>

definition canonical :: "net_url \<Rightarrow> string \<Rightarrow> string option" where
  "canonical L urlStr =
     (case url_Parse L urlStr of
        Inl err \<Rightarrow> None
      | Inr u \<Rightarrow> Some (normalizeURL L (Some u)))"

text \<open>
  The parent-path of a path: the path with its final \<open>/\<close>-segment removed; a path without
  a \<open>/\<close> has none.
\<close>

definition parent_path :: "string \<Rightarrow> string option" where
  "parent_path p =
     (if CHR ''/'' \<in> set p
      then Some (rev (drop 1 (dropWhile (\<lambda>c. c \<noteq> CHR ''/'') (rev p))))
      else None)"

text \<open>
  The states of a tree: made by \<open>NewWebTree\<close> on a fresh heap, then changed by \<open>AddURL\<close>
  under a parent that is nil or an allocated node, and by assignments to a title.
\<close>

definition allocated :: "heap \<Rightarrow> ptr \<Rightarrow> bool" where
  "allocated h p = (case p of None \<Rightarrow> True | Some a \<Rightarrow> a < next h)"

inductive built :: "net_url \<Rightarrow> heap \<times> WebTree \<Rightarrow> bool" for L :: net_url where
  built_new: "NewWebTree L empty_heap rootURL maxDepth = Inr s \<Longrightarrow> built L s"
| built_add: "built L s \<Longrightarrow> allocated (fst s) parentNode \<Longrightarrow> built L (fst (AddURL L s urlStr parentNode))"
| built_title: "built L (h, t) \<Longrightarrow> a < next h \<Longrightarrow> built L (set_Title h a title, t)"

text \<open>
  The order of a depth-first search from an address, parents before children and children
  from left to right, cut at the given depth.
\<close>

fun dfs :: "nat \<Rightarrow> heap \<Rightarrow> nat \<Rightarrow> nat list" where
  "dfs 0 h a = []"
| "dfs (Suc k) h a = a # concat (map (dfs k h) (Children (cell h a)))"

definition dfs_from :: "heap \<Rightarrow> ptr \<Rightarrow> nat list" where
  "dfs_from h p = (case p of None \<Rightarrow> [] | Some a \<Rightarrow> dfs (next h) h a)"

text \<open>
  The report lines of an output: the links printed as accepted, in order.
\<close>

definition reported :: "out_line list \<Rightarrow> string list" where
  "reported out = concat (map (\<lambda>l. case l of PAccepted c \<Rightarrow> [c] | _ \<Rightarrow> []) out)"

text \<open>
  The first occurrences in a list, left to right, of the elements not seen before.
\<close>

fun first_new :: "(string \<Rightarrow> bool) \<Rightarrow> string list \<Rightarrow> string list" where
  "first_new seen [] = []"
| "first_new seen (x # xs) =
     (if seen x then first_new seen xs else x # first_new (\<lambda>y. seen y \<or> y = x) xs)"

text \<open>The URLs of the records of a store, in order.\<close>

definition stored_urls :: "Storage \<Rightarrow> string list" where
  "stored_urls st = (case st of NullStorage \<Rightarrow> [] | XML s \<Rightarrow> map page_URL (Pages (Document s)))"

definition records_of :: "XMLStorage \<Rightarrow> string \<Rightarrow> XMLPage list" where
  \<comment> \<open>The records of a store under a URL.\<close>
  "records_of s u = filter (\<lambda>p. page_URL p = u) (Pages (Document s))"

text \<open>The visited set of the tree of a state.\<close>

definition visited :: "run_state \<Rightarrow> string \<Rightarrow> bool" where
  "visited s k = lookup_bool (VisitedURLs (WebTree s)) k"

text \<open>
  The URL \<open>Download\<close> requests for an accepted link: the \<open>String()\<close> of the URL of its node.
\<close>

definition requested :: "net_url \<Rightarrow> string \<Rightarrow> string" where
  "requested L link = (case url_Parse L link of Inl err \<Rightarrow> link | Inr u \<Rightarrow> url_String L u)"

text \<open>
  The links \<open>processLinkAndDownload\<close> fetches: accepted, \<open>DownloadAll\<close> set, canonical
  form not visited yet.
\<close>

definition tries :: "net_url \<Rightarrow> run_state \<Rightarrow> string \<Rightarrow> bool" where
  "tries L s link =
     (snd (isParentURL L s link) \<and> DownloadAll s \<and>
      (case canonical L link of None \<Rightarrow> False | Some k \<Rightarrow> \<not> visited s k))"

text \<open>
  The elements of a list whose key occurs for the first time and was not seen before.
\<close>

fun first_by :: "('a \<Rightarrow> 'k) \<Rightarrow> ('k \<Rightarrow> bool) \<Rightarrow> 'a list \<Rightarrow> 'a list" where
  "first_by f seen [] = []"
| "first_by f seen (x # xs) =
     (if seen (f x) then first_by f seen xs
      else x # first_by f (\<lambda>k. seen k \<or> k = f x) xs)"

text \<open>The keys a state has seen: the visited canonical forms, and no key at all.\<close>

definition seen_of :: "run_state \<Rightarrow> string option \<Rightarrow> bool" where
  "seen_of s ko = (case ko of None \<Rightarrow> True | Some k \<Rightarrow> visited s k)"

text \<open>
  The requests \<open>Download\<close> makes for a list of links: one for each accepted link whose
  canonical form was not seen before, in order, and none unless \<open>DownloadAll\<close> is set.
\<close>

definition link_requests :: "net_url \<Rightarrow> run_state \<Rightarrow> string list \<Rightarrow> string list" where
  "link_requests L s links =
     (if DownloadAll s
      then map (requested L)
             (first_by (canonical L) (seen_of s) (filter (\<lambda>l. snd (isParentURL L s l)) links))
      else [])"

text \<open>
  What a request for a page gives, after the requests made before it: the line that reports
  its failure, or the content extracted from the page. A list of requests is made one after
  the other.
\<close>

definition attempt :: "'doc env \<Rightarrow> string list \<Rightarrow> string \<Rightarrow> out_line + string" where
  "attempt E log u =
     (case FetchPage E log u of
        Inl err \<Rightarrow> Inl (PFailedFetch u err)
      | Inr doc \<Rightarrow>
          (case ExtractContent E doc of
             Inl err \<Rightarrow> Inl (PFailedExtract u err)
           | Inr (content, pruned) \<Rightarrow> Inr content))"

fun attempts :: "'doc env \<Rightarrow> string list \<Rightarrow> string list \<Rightarrow> (string \<times> (out_line + string)) list" where
  "attempts E log [] = []"
| "attempts E log (u # us) = (u, attempt E log u) # attempts E (log @ [u]) us"

definition failed_of :: "(string \<times> (out_line + string)) list \<Rightarrow> out_line list" where
  \<comment> \<open>The failure lines of the requests that failed.\<close>
  "failed_of as = concat (map (\<lambda>(u, r). case r of Inl l \<Rightarrow> [l] | Inr c \<Rightarrow> []) as)"

definition loaded_of :: "(string \<times> (out_line + string)) list \<Rightarrow> string list" where
  \<comment> \<open>The URLs of the requests that gave a content.\<close>
  "loaded_of as = concat (map (\<lambda>(u, r). case r of Inl l \<Rightarrow> [] | Inr c \<Rightarrow> [u]) as)"

text \<open>The lines of an output that report a failed link.\<close>

definition failure_lines :: "out_line list \<Rightarrow> out_line list" where
  "failure_lines out =
     filter (\<lambda>l. case l of PFailedFetch u err \<Rightarrow> True | PFailedExtract u err \<Rightarrow> True
                   | PFailedSave u err \<Rightarrow> True | _ \<Rightarrow> False) out"

text \<open>
  The two places where a context stores \<open>maxDepth\<close>, assigned together; \<open>depthless\<close>
  forgets both.
\<close>

definition set_depth :: "64 word \<Rightarrow> 64 word \<Rightarrow> run_state \<Rightarrow> run_state" where
  "set_depth m m' s = s\<lparr>hc_MaxDepth := m, WebTree := (WebTree s)\<lparr>MaxDepth := m'\<rparr>\<rparr>"

definition depthless :: "run_state \<Rightarrow> run_state" where
  "depthless s = set_depth 0 0 s"

section \<open>Invariants\<close>

text \<open>
  The invariant of a built tree, node by node: the depth of a node is that of its parent
  plus 1 (0 without a parent), parents are allocated before their children, the depth of
  a node is at most its address, and a child names as its parent the node that lists it.
  The root is an allocated node without a parent.
\<close>

definition node_ok :: "heap \<Rightarrow> nat \<Rightarrow> bool" where
  "node_ok h a =
     ((case Parent (cell h a) of
         None \<Rightarrow> Depth (cell h a) = 0
       | Some p \<Rightarrow> p < a \<and> Depth (cell h a) = Depth (cell h p) + 1) \<and>
      (a < 2 ^ 64 \<longrightarrow> unat (Depth (cell h a)) \<le> a) \<and>
      (\<forall>c \<in> set (Children (cell h a)). a < c \<and> c < next h \<and> Parent (cell h c) = Some a))"

definition tree_inv :: "heap \<times> WebTree \<Rightarrow> bool" where
  "tree_inv s =
     ((\<exists>r. RootNode (snd s) = Some r \<and> r < next (fst s) \<and> Parent (cell (fst s) r) = None) \<and>
      (\<forall>a < next (fst s). node_ok (fst s) a))"

text \<open>
  The key of a node, and the record \<open>AddURL\<close> keeps: the key of every node but the root
  is in the visited set.
\<close>

definition node_key :: "net_url \<Rightarrow> heap \<Rightarrow> nat \<Rightarrow> string" where
  "node_key L h a = normalizeURL L (URL (cell h a))"

definition keys_visited :: "net_url \<Rightarrow> heap \<times> WebTree \<Rightarrow> bool" where
  "keys_visited L s =
     (\<forall>a < next (fst s). Some a \<noteq> RootNode (snd s) \<longrightarrow>
        lookup_bool (VisitedURLs (snd s)) (node_key L (fst s) a))"

text \<open>Child pointers lead to later, allocated cells: the heap has no cycle.\<close>

definition forward :: "heap \<Rightarrow> bool" where
  "forward h = (\<forall>a < next h. \<forall>c \<in> set (Children (cell h a)). a < c \<and> c < next h)"

text \<open>
  The index of a document agrees with its pages: an entry points to the page of that URL,
  and every page is the entry of its URL.
\<close>

definition indexed :: "XMLDocument \<Rightarrow> bool" where
  "indexed d =
     ((\<forall>u i. pagesByURL d u = Some i \<longrightarrow> i < length (Pages d) \<and> page_URL (Pages d ! i) = u) \<and>
      (\<forall>i < length (Pages d). pagesByURL d (page_URL (Pages d ! i)) = Some i))"

text \<open>
  What \<open>Download\<close> relies on in a context: the root pointer is an allocated node whose URL
  is the parsed root URL. The constructors establish it.
\<close>

definition root_ok :: "net_url \<Rightarrow> run_state \<Rightarrow> bool" where
  "root_ok L s =
     (\<exists>r u. RootNode (WebTree s) = Some r \<and> r < next (nodes s) \<and>
            URL (cell (nodes s) r) = Some u \<and> url_Parse L (RootURL s) = Inr u)"

text \<open>A store the harvester can write to: no store at all, or an indexed document.\<close>

definition store_ok :: "Storage \<Rightarrow> bool" where
  "store_ok st = (case st of NullStorage \<Rightarrow> True | XML s \<Rightarrow> indexed (Document s))"

section \<open>Concrete states for the examples\<close>

definition plain_URL :: "string \<Rightarrow> string \<Rightarrow> string \<Rightarrow> string \<Rightarrow> URL" where
  \<comment> \<open>A URL of a scheme, a host, a path and a fragment, every other field zero.\<close>
  "plain_URL scheme host path frag =
     \<lparr>Scheme = scheme, Opaque = [], User = None, Host = host, Path = path, RawPath = [],
      OmitHost = False, ForceQuery = False, RawQuery = [], Fragment = frag, RawFragment = []\<rparr>"

definition docs_tree :: "heap \<times> WebTree" where
  \<comment> \<open>The tree \<open>NewWebTree("https://x.test/docs", 2)\<close> returns.\<close>
  "docs_tree = projr (NewWebTree go_url empty_heap ''https://x.test/docs'' 2)"

definition docs_tree2 :: "heap \<times> WebTree" where
  "docs_tree2 = fst (AddURL go_url docs_tree ''https://x.test/docs/a/'' (Some 0))"

text \<open>The context \<open>NewExplorerContext(rootURL, 2, debug)\<close> returns.\<close>

definition explorer :: "string \<Rightarrow> bool \<Rightarrow> run_state" where
  "explorer rootURL debug = projr (NewExplorerContext go_url rootURL 2 debug)"

text \<open>
  Collaborators for the examples: the root page answers with the given links, every other
  request fails.
\<close>

definition page_env :: "string \<Rightarrow> string list \<Rightarrow> (string list) env" where
  "page_env rootURL links =
     \<lparr>FetchPage = (\<lambda>log u. if u = rootURL then Inr links else Inl (Err ''404 Not Found'')),
      ExtractTitle = (\<lambda>doc. ''Guide''),
      anchors = (\<lambda>doc base. doc),
      ExtractContent = (\<lambda>doc. Inr (''text'', doc)),
      Now = (\<lambda>log. ''2025-04-03T10:15:30Z'')\<rparr>"

definition guide_links :: "string list" where
  "guide_links = [''https://x.test/docs/guide'', ''https://x.test/docs/guide#intro'',
                  ''https://x.test/docs/guide/page/sub'', ''https://other.test/docs/guide'',
                  ''https://x.test/about'']"

text \<open>
  The context \<open>NewXMLDownloaderContext(rootURL, "docs.xml", rootURL, 2, debug)\<close> returns,
  with \<open>DownloadAll\<close> set as \<open>DownloadWebsite\<close> does.
\<close>

definition downloader :: "string \<Rightarrow> bool \<Rightarrow> run_state" where
  "downloader rootURL debug =
     (projr (NewXMLDownloaderContext go_url None ''2025-04-03T10:15:30Z'' rootURL ''docs.xml''
               rootURL 2 debug))\<lparr>DownloadAll := True\<rparr>"

text \<open>
  Collaborators for the examples: the root page has the given links, the pages listed as
  broken fail to load, every other page loads and links to a page one level deeper.
\<close>

definition site_env :: "string \<Rightarrow> string list \<Rightarrow> string list \<Rightarrow> (string list) env" where
  "site_env rootURL links broken =
     \<lparr>FetchPage = (\<lambda>log u. if u = rootURL then Inr links
                            else if u \<in> set broken then Inl (Err ''404 Not Found'')
                            else Inr [''https://x.test/prompt-engineering/deeper'']),
      ExtractTitle = (\<lambda>doc. ''Page''),
      anchors = (\<lambda>doc base. doc),
      ExtractContent = (\<lambda>doc. Inr (''text'', doc)),
      Now = (\<lambda>log. ''2025-04-03T10:15:31Z'')\<rparr>"

text \<open>A store as \<open>NewXMLStorage\<close> returns it.\<close>

definition fresh_store :: XMLStorage where
  "fresh_store = projr (NewXMLStorage None ''2025-04-03T10:15:30Z'' ''docs.xml'' ''https://x.test/docs'')"

text \<open>A root page in the section the keyword rule accepts, and its site.\<close>

definition pe_root :: string where
  "pe_root = ''https://x.test/prompt-engineering/overview''"

definition pe_env :: "(string list) env" where
  \<comment> \<open>The root page links to pages \<open>a\<close> and \<open>b\<close>; page \<open>a\<close> does not load.\<close>
  "pe_env = site_env pe_root
              [''https://x.test/prompt-engineering/a'', ''https://x.test/prompt-engineering/b'']
              [''https://x.test/prompt-engineering/a'']"

section \<open>The harvester in blocks\<close>

lemma processLink_alt:
  "processLink L s link =
     (case isParentURL L s link of
        (dbg, accepted) \<Rightarrow>
          if accepted then report L link (print dbg s) else filtered L link (print dbg s))"
  by (simp add: processLink_def report_def filtered_def Let_def split: prod.splits)

lemma processLinkAndDownload_alt:
  "processLinkAndDownload L E s link =
     (case isParentURL L s link of
        (dbg, accepted) \<Rightarrow>
          if accepted then
            (let s1 = report L link (print dbg s) in
             if DownloadAll s1 then
               (case FindNode L (nodes s1, WebTree s1) (RootURL s1) of
                  None \<Rightarrow> None
                | Some parsedURL \<Rightarrow>
                    (case AddURL L (nodes s1, WebTree s1) link parsedURL of
                       ((h, t), r) \<Rightarrow>
                         (let s2 = s1\<lparr>WebTree := t, nodes := h\<rparr> in
                          case r of
                            Inl err \<Rightarrow> Some s2
                          | Inr None \<Rightarrow> Some s2
                          | Inr (Some parsedLink) \<Rightarrow> Some (downloadLink L E s2 parsedLink))))
             else Some s1)
          else Some (filtered L link (print dbg s)))"
  by (simp add: processLinkAndDownload_def report_def filtered_def downloadLink_def Let_def
      split: prod.splits option.splits sum.splits)

lemma Download_alt:
  "Download L E s =
     (let s0 = print [PDownloading (RootURL s)] s;
          s1 = s0\<lparr>fetched := fetched s0 @ [RootURL s0]\<rparr>
      in case FetchPage E (fetched s0) (RootURL s0) of
           Inl err \<Rightarrow> Some (s1, Some (Wrapped ''failed to fetch the URL'' err))
         | Inr doc \<Rightarrow>
             (case RootNode (WebTree s1) of
                None \<Rightarrow> Some (s1, Some (Panic ''nil pointer dereference''))
              | Some rootNode \<Rightarrow>
                  (let s2 = s1\<lparr>nodes := set_Title (nodes s1) rootNode (ExtractTitle E doc)\<rparr> in
                   case ExtractContent E doc of
                     Inl err \<Rightarrow> Some (s2, Some (Wrapped ''failed to extract content'' err))
                   | Inr (content, pruned) \<Rightarrow>
                       (case SaveNodeContent L (Now E (fetched s2)) (nodes s2) (Storage s2)
                               (Some rootNode) content of
                          (st, Some err) \<Rightarrow>
                            Some (s2\<lparr>Storage := st\<rparr>, Some (Wrapped ''failed to save content'' err))
                        | (st, None) \<Rightarrow>
                            (let s3 = s2\<lparr>Storage := st\<rparr> in
                             case ExtractLinks L E pruned (RootURL s3) of
                               Inl err \<Rightarrow> Some (s3, Some (Wrapped ''failed to extract links'' err))
                             | Inr links \<Rightarrow>
                                 (case processLinks L E (print [PFound (length links)] s3) links of
                                    None \<Rightarrow> None
                                  | Some s4 \<Rightarrow> Some (createIndex s4 rootNode, None)))))))"
  by (simp add: Download_def createIndex_def Let_def
      split: prod.splits option.splits sum.splits)

section \<open>The site tree\<close>

subsection \<open>The invariant of built trees\<close>

lemma tree_inv_alt:
  "tree_inv (h, t) =
     ((\<exists>r. RootNode t = Some r \<and> r < next h \<and> Parent (cell h r) = None) \<and>
      (\<forall>a < next h. node_ok h a))"
  by (simp add: tree_inv_def)

lemma tree_inv_new:
  assumes "NewWebTree L empty_heap rootURL maxDepth = Inr s"
  shows "tree_inv s"
proof -
  from assms obtain pu where pu: "url_Parse L rootURL = Inr pu"
    by (cases "url_Parse L rootURL") (auto simp: NewWebTree_def NewWebNode_def)
  with assms have s: "s = (\<lparr>cell = (\<lambda>a. blank_node)(0 := \<lparr>URL = Some pu, Title = [], ContentType = ''text/html'',
                            Children = [], Parent = None, Depth = 0, Metadata = []\<rparr>), next = Suc 0\<rparr>,
        \<lparr>RootNode = Some 0, MaxDepth = maxDepth, VisitedURLs = Map.empty\<rparr>)"
    by (auto simp: NewWebTree_def NewWebNode_def alloc_def empty_heap_def)
  show ?thesis unfolding s tree_inv_alt by (simp add: node_ok_def)
qed

lemma unat_succ_le:
  fixes d :: "64 word"
  assumes "unat d \<le> p" "p < a" "a < 2 ^ 64"
  shows "unat (d + 1) \<le> a"
proof -
  have "unat d + 1 < 2 ^ 64" using assms by simp
  then have "unat (d + 1) = unat d + 1"
    by (simp add: unat_word_ariths)
  with assms show ?thesis by simp
qed

lemma AddURL_skip:
  assumes "url_Parse L urlStr = Inl e \<or>
           (\<exists>pu. url_Parse L urlStr = Inr pu \<and> lookup_bool (VisitedURLs (snd s)) (normalizeURL L (Some pu)))"
  shows "fst (AddURL L s urlStr parentNode) = s"
  using assms by (auto simp: AddURL_def Let_def)

lemma AddURL_fresh:
  assumes pu: "url_Parse L urlStr = Inr pu"
    and fresh: "\<not> lookup_bool (VisitedURLs t) (normalizeURL L (Some pu))"
  shows "AddURL L (h, t) urlStr parentNode =
     ((let nn = \<lparr>URL = Some pu, Title = [], ContentType = ''text/html'', Children = [],
                 Parent = parentNode,
                 Depth = (case parentNode of None \<Rightarrow> 0 | Some p \<Rightarrow> Depth (cell h p) + 1),
                 Metadata = []\<rparr>;
           h1 = h\<lparr>cell := (cell h)(next h := nn), next := Suc (next h)\<rparr>
       in case parentNode of None \<Rightarrow> h1 | Some p \<Rightarrow> AddChild h1 p (Some (next h)),
       t\<lparr>VisitedURLs := (VisitedURLs t)(normalizeURL L (Some pu) \<mapsto> True)\<rparr>),
      Inr (Some (next h)))"
  using assms by (cases parentNode) (simp_all add: AddURL_def Let_def NewWebNode_def alloc_def)

lemma node_ok_frame:
  assumes ok: "node_ok h a" and a: "a < next h" and nx: "next h \<le> next h'"
    and D: "\<forall>x < next h. Depth (cell h' x) = Depth (cell h x)"
    and P: "\<forall>x < next h. Parent (cell h' x) = Parent (cell h x)"
    and C: "Children (cell h' a) = Children (cell h a)"
  shows "node_ok h' a"
proof -
  have 1: "case Parent (cell h' a) of None \<Rightarrow> Depth (cell h' a) = 0
           | Some p \<Rightarrow> p < a \<and> Depth (cell h' a) = Depth (cell h' p) + 1"
  proof (cases "Parent (cell h a)")
    case None
    with ok a D P show ?thesis by (simp add: node_ok_def)
  next
    case (Some q)
    with ok have "q < a" "Depth (cell h a) = Depth (cell h q) + 1" by (simp_all add: node_ok_def)
    moreover from \<open>q < a\<close> a have "q < next h" by simp
    ultimately show ?thesis using Some a D P by simp
  qed
  have 2: "a < 2 ^ 64 \<longrightarrow> unat (Depth (cell h' a)) \<le> a"
    using ok a D by (simp add: node_ok_def)
  have 3: "\<forall>c \<in> set (Children (cell h' a)). a < c \<and> c < next h' \<and> Parent (cell h' c) = Some a"
  proof
    fix c assume "c \<in> set (Children (cell h' a))"
    with C ok have "a < c" "c < next h" "Parent (cell h c) = Some a" by (simp_all add: node_ok_def)
    with P nx show "a < c \<and> c < next h' \<and> Parent (cell h' c) = Some a" by simp
  qed
  from 1 2 3 show ?thesis by (simp add: node_ok_def)
qed

lemma tree_inv_add:
  assumes inv: "tree_inv s" and par: "allocated (fst s) parentNode"
  shows "tree_inv (fst (AddURL L s urlStr parentNode))"
proof (cases "url_Parse L urlStr")
  case (Inl e)
  with inv show ?thesis by (simp add: AddURL_skip)
next
  case (Inr pu)
  show ?thesis
  proof (cases "lookup_bool (VisitedURLs (snd s)) (normalizeURL L (Some pu))")
    case True
    with Inr inv show ?thesis by (simp add: AddURL_skip)
  next
    case False
    obtain h t where s: "s = (h, t)" by (cases s)
    from inv s obtain r where root: "RootNode t = Some r" "r < next h" "Parent (cell h r) = None"
      and ok: "\<forall>a < next h. node_ok h a"
      by (auto simp: tree_inv_alt)
    define nn where "nn = \<lparr>URL = Some pu, Title = [], ContentType = ''text/html'', Children = [],
                 Parent = parentNode,
                 Depth = (case parentNode of None \<Rightarrow> 0 | Some p \<Rightarrow> Depth (cell h p) + 1),
                 Metadata = []\<rparr>"
    define h1 where "h1 = h\<lparr>cell := (cell h)(next h := nn), next := Suc (next h)\<rparr>"
    define h2 where "h2 = (case parentNode of None \<Rightarrow> h1 | Some p \<Rightarrow> AddChild h1 p (Some (next h)))"
    from False s have fresh: "\<not> lookup_bool (VisitedURLs t) (normalizeURL L (Some pu))" by simp
    have res: "fst (AddURL L s urlStr parentNode) =
        (h2, t\<lparr>VisitedURLs := (VisitedURLs t)(normalizeURL L (Some pu) \<mapsto> True)\<rparr>)"
      unfolding s AddURL_fresh [OF Inr fresh]
      by (cases parentNode) (simp_all add: h2_def h1_def nn_def Let_def)
    have nx: "next h2 = Suc (next h)"
      by (simp add: h2_def h1_def AddChild_def split: option.splits)
    have old: "Depth (cell h2 x) = Depth (cell h x) \<and> Parent (cell h2 x) = Parent (cell h x)"
      if "x < next h" for x
      using that by (simp add: h2_def h1_def AddChild_def split: option.splits)
    have new: "Depth (cell h2 (next h)) = Depth nn \<and> Parent (cell h2 (next h)) = parentNode \<and>
               Children (cell h2 (next h)) = []"
      using par s by (auto simp: h2_def h1_def AddChild_def nn_def allocated_def split: option.splits)
    have kids: "Children (cell h2 x) =
        (if parentNode = Some x then Children (cell h x) @ [next h] else Children (cell h x))"
      if "x < next h" for x
      using that by (auto simp: h2_def h1_def AddChild_def split: option.splits)
    have "node_ok h2 a" if a: "a < Suc (next h)" for a
    proof (cases "a = next h")
      case True
      show ?thesis
      proof (cases parentNode)
        case None
        with new True show ?thesis by (simp add: node_ok_def nn_def)
      next
        case (Some p)
        with par s have p: "p < next h" by (simp add: allocated_def)
        with ok have "node_ok h p" by simp
        then have "p < 2 ^ 64 \<longrightarrow> unat (Depth (cell h p)) \<le> p" by (simp add: node_ok_def)
        with p have "next h < 2 ^ 64 \<longrightarrow> unat (Depth (cell h p) + 1) \<le> next h"
          using unat_succ_le [of "Depth (cell h p)" p "next h"] by auto
        with new True Some p old [OF p] show ?thesis by (simp add: node_ok_def nn_def)
      qed
    next
      case False
      with a have lt: "a < next h" by simp
      with ok have oka: "node_ok h a" by simp
      show ?thesis
      proof (cases "parentNode = Some a")
        case False
        with kids [OF lt] have "Children (cell h2 a) = Children (cell h a)" by simp
        with oka lt nx old show ?thesis by (intro node_ok_frame [of h a h2]) simp_all
      next
        case True
        let ?h3 = "h2\<lparr>cell := (cell h2)(a := (cell h2 a)\<lparr>Children := Children (cell h a)\<rparr>)\<rparr>"
        have "node_ok ?h3 a"
          using oka lt nx old by (intro node_ok_frame [of h a ?h3]) simp_all
        moreover have "Children (cell h2 a) = Children (cell h a) @ [next h]"
          using kids [OF lt] True by simp
        ultimately show ?thesis
          using new True lt nx by (auto simp: node_ok_def split: option.splits)
      qed
    qed
    with root nx old [OF root(2)] show ?thesis
      unfolding res tree_inv_alt by simp
  qed
qed

lemma tree_inv_title:
  assumes "tree_inv (h, t)"
  shows "tree_inv (set_Title h a title, t)"
proof -
  from assms obtain r where root: "RootNode t = Some r" "r < next h" "Parent (cell h r) = None"
    and ok: "\<forall>a < next h. node_ok h a"
    by (auto simp: tree_inv_alt)
  have "node_ok (set_Title h a title) x" if "x < next h" for x
    using that ok by (intro node_ok_frame [of h x "set_Title h a title"]) (simp_all add: set_Title_def)
  moreover have "next (set_Title h a title) = next h" by (simp add: set_Title_def)
  moreover have "Parent (cell (set_Title h a title) r) = None"
    using root by (auto simp: set_Title_def)
  ultimately show ?thesis using root unfolding tree_inv_alt by simp
qed

lemma built_tree_inv: "built L s \<Longrightarrow> tree_inv s"
proof (induction rule: built.induct)
  case (built_new rootURL maxDepth s)
  then show ?case by (rule tree_inv_new)
next
  case (built_add s parentNode urlStr)
  then show ?case by (simp add: tree_inv_add)
next
  case (built_title h t a title)
  then show ?case by (simp add: tree_inv_title)
qed

lemma canonical_Inr: "url_Parse L link = Inr pl \<Longrightarrow> canonical L link = Some (normalizeURL L (Some pl))"
  by (simp add: canonical_def)

lemma AddURL_cells:
  assumes pu: "url_Parse L urlStr = Inr pu"
    and fresh: "\<not> lookup_bool (VisitedURLs t) (normalizeURL L (Some pu))"
  shows "next (fst (fst (AddURL L (h, t) urlStr parentNode))) = Suc (next h)"
    and "URL (cell (fst (fst (AddURL L (h, t) urlStr parentNode))) a) =
           (if a = next h then Some pu else URL (cell h a))"
    and "snd (fst (AddURL L (h, t) urlStr parentNode)) =
           t\<lparr>VisitedURLs := (VisitedURLs t)(normalizeURL L (Some pu) \<mapsto> True)\<rparr>"
    and "snd (AddURL L (h, t) urlStr parentNode) = Inr (Some (next h))"
  unfolding AddURL_fresh [OF pu fresh]
  by (cases parentNode; simp add: Let_def AddChild_def)+

lemma keys_visited_new:
  assumes "NewWebTree L empty_heap rootURL maxDepth = Inr s"
  shows "keys_visited L s"
  using assms
  by (cases "url_Parse L rootURL")
    (auto simp: NewWebTree_def NewWebNode_def alloc_def empty_heap_def keys_visited_def)

lemma keys_visited_add:
  assumes inv: "keys_visited L s"
  shows "keys_visited L (fst (AddURL L s urlStr parentNode))"
proof (cases "url_Parse L urlStr")
  case (Inl e)
  with inv show ?thesis by (simp add: AddURL_skip)
next
  case (Inr pu)
  show ?thesis
  proof (cases "lookup_bool (VisitedURLs (snd s)) (normalizeURL L (Some pu))")
    case True
    with Inr inv show ?thesis by (simp add: AddURL_skip)
  next
    case False
    obtain h t where s: "s = (h, t)" by (cases s)
    from False s have fresh: "\<not> lookup_bool (VisitedURLs t) (normalizeURL L (Some pu))" by simp
    note c = AddURL_cells [OF Inr fresh, of h parentNode]
    show ?thesis
      unfolding keys_visited_def s
    proof (intro allI impI)
      fix a
      assume a: "a < next (fst (fst (AddURL L (h, t) urlStr parentNode)))"
        and nr: "Some a \<noteq> RootNode (snd (fst (AddURL L (h, t) urlStr parentNode)))"
      show "lookup_bool (VisitedURLs (snd (fst (AddURL L (h, t) urlStr parentNode))))
              (node_key L (fst (fst (AddURL L (h, t) urlStr parentNode))) a)"
      proof (cases "a = next h")
        case True
        then show ?thesis by (simp add: c node_key_def lookup_bool_def)
      next
        case False
        with a have "a < next h" by (simp add: c)
        moreover from nr have "Some a \<noteq> RootNode t" by (simp add: c)
        ultimately have "lookup_bool (VisitedURLs t) (node_key L h a)"
          using inv s unfolding keys_visited_def by simp
        with False show ?thesis by (simp add: c node_key_def lookup_bool_def)
      qed
    qed
  qed
qed

lemma keys_visited_title:
  assumes "keys_visited L (h, t)"
  shows "keys_visited L (set_Title h a title, t)"
  using assms by (simp add: keys_visited_def node_key_def set_Title_def)

lemma built_keys_visited: "built L s \<Longrightarrow> keys_visited L s"
proof (induction rule: built.induct)
  case (built_new rootURL maxDepth s)
  then show ?case by (rule keys_visited_new)
next
  case (built_add s parentNode urlStr)
  then show ?case by (simp add: keys_visited_add)
next
  case (built_title h t a title)
  then show ?case by (simp add: keys_visited_title)
qed

subsection \<open>Adding a URL twice\<close>

text \<open>
  After a call of \<open>AddURL\<close> that returned a node, a call with any URL to which
  \<open>normalizeURL\<close> gives the same key (and any parent) returns \<open>(nil, nil)\<close> and leaves
  the heap and the tree, so the visited set and every list of children, as they were. In
  a built tree the new node is then the only one, the root aside, with this key.
\<close>

lemma AddURL_same_key:
  assumes first: "AddURL L s u parentNode = (s1, Inr (Some n))"
    and same: "canonical L u' = canonical L u"
  shows "AddURL L s1 u' parentNode' = (s1, Inr None) \<and>
         next (fst s1) = Suc (next (fst s)) \<and>
         (built L s \<longrightarrow>
            (\<forall>a < next (fst s1). Some a \<noteq> RootNode (snd s1) \<longrightarrow>
               (Some (node_key L (fst s1) a) = canonical L u \<longleftrightarrow> a = n)))"
proof -
  obtain h t where s: "s = (h, t)" by (cases s)
  from first obtain pu where pu: "url_Parse L u = Inr pu"
    by (cases "url_Parse L u") (auto simp: AddURL_def Let_def)
  from first pu s have fresh: "\<not> lookup_bool (VisitedURLs t) (normalizeURL L (Some pu))"
    by (auto simp: AddURL_def Let_def split: if_splits)
  note c = AddURL_cells [OF pu fresh, of h parentNode]
  from first s have s1: "s1 = fst (AddURL L (h, t) u parentNode)"
    and n: "n = next h" using c(4) by simp_all
  have nxt: "next (fst s1) = Suc (next (fst s))" by (simp add: s1 c s)
  from same pu obtain pu' where pu': "url_Parse L u' = Inr pu'"
    and key: "normalizeURL L (Some pu') = normalizeURL L (Some pu)"
    by (cases "url_Parse L u'") (auto simp: canonical_def)
  have "lookup_bool (VisitedURLs (snd s1)) (normalizeURL L (Some pu'))"
    by (simp add: s1 c key lookup_bool_def)
  with pu' have second: "AddURL L s1 u' parentNode' = (s1, Inr None)"
    by (simp add: AddURL_def Let_def)
  have only: "Some (node_key L (fst s1) a) = canonical L u \<longleftrightarrow> a = n"
    if b: "built L s" and a: "a < next (fst s1)" and nr: "Some a \<noteq> RootNode (snd s1)" for a
  proof (cases "a = next h")
    case True
    then show ?thesis by (simp add: n s1 c node_key_def canonical_Inr [OF pu])
  next
    case False
    with a have "a < next h" by (simp add: s1 c)
    moreover from nr have "Some a \<noteq> RootNode t" by (simp add: s1 c)
    ultimately have "lookup_bool (VisitedURLs t) (node_key L h a)"
      using built_keys_visited [OF b] s unfolding keys_visited_def by simp
    with fresh have "node_key L h a \<noteq> normalizeURL L (Some pu)" by auto
    with False show ?thesis by (simp add: n s1 c node_key_def canonical_Inr [OF pu])
  qed
  from second nxt only show ?thesis by blast
qed

lemma parse_docs: "url_Parse go_url ''https://x.test/docs'' = Inr (plain_URL ''https'' ''x.test'' ''/docs'' [])"
  by code_simp

lemma parse_docs_a: "url_Parse go_url ''https://x.test/docs/a/'' = Inr (plain_URL ''https'' ''x.test'' ''/docs/a/'' [])"
  by code_simp

lemma docs_tree_new: "NewWebTree go_url empty_heap ''https://x.test/docs'' 2 = Inr docs_tree"
  by (simp add: docs_tree_def NewWebTree_def NewWebNode_def parse_docs alloc_def)

lemma built_docs_tree: "built go_url docs_tree"
  using docs_tree_new by (rule built_new)

lemma AddURL_same_key_docs:
  "snd (AddURL go_url docs_tree ''https://x.test/docs/a/'' (Some 0)) = Inr (Some 1) \<and>
   canonical go_url ''https://x.test/docs/a#top'' = canonical go_url ''https://x.test/docs/a/'' \<and>
   built go_url docs_tree \<and>
   AddURL go_url (fst (AddURL go_url docs_tree ''https://x.test/docs/a/'' (Some 0)))
       ''https://x.test/docs/a#top'' None
     = (fst (AddURL go_url docs_tree ''https://x.test/docs/a/'' (Some 0)), Inr None) \<and>
   next (fst (fst (AddURL go_url docs_tree ''https://x.test/docs/a/'' (Some 0)))) = 2 \<and>
   Some (node_key go_url (fst (fst (AddURL go_url docs_tree ''https://x.test/docs/a/'' (Some 0)))) 1)
     = canonical go_url ''https://x.test/docs/a/''"
proof -
  let ?r = "AddURL go_url docs_tree ''https://x.test/docs/a/'' (Some 0)"
  have n0: "next (fst docs_tree) = 1"
    by (simp add: docs_tree_def NewWebTree_def NewWebNode_def parse_docs alloc_def empty_heap_def)
  have h1: "snd ?r = Inr (Some 1)"
    by (simp add: docs_tree_def AddURL_def NewWebTree_def NewWebNode_def parse_docs parse_docs_a
        alloc_def empty_heap_def Let_def lookup_bool_def)
  have h2: "canonical go_url ''https://x.test/docs/a#top'' = canonical go_url ''https://x.test/docs/a/''"
    by code_simp
  have r1: "RootNode (snd (fst ?r)) = Some 0" by code_simp
  have "?r = (fst ?r, Inr (Some 1))" using h1 by (simp add: prod_eq_iff)
  note t = AddURL_same_key [OF this h2, of None]
  from t n0 have "1 < next (fst (fst ?r))" by simp
  with t built_docs_tree r1
  have "Some (node_key go_url (fst (fst ?r)) 1) = canonical go_url ''https://x.test/docs/a/''"
    by auto
  with t h1 h2 n0 built_docs_tree show ?thesis by simp
qed

text \<open>
  With \<open>Parse\<close> and \<open>String\<close> two URLs have the same key when their parsed forms agree
  in every field but the fragment and the trailing slashes of \<open>Path\<close>; \<open>RawPath\<close> is
  one of the fields that have to agree.
\<close>

lemma EscapedFragment_unused: "Fragment u = [] \<Longrightarrow> String (u\<lparr>RawFragment := r\<rparr>) = String u"
  by (simp add: String_def EscapedPath_def Let_def)

lemma normalizeURL_go:
  "normalizeURL go_url (Some u) =
     String (u\<lparr>Fragment := [], RawFragment := [], Path := TrimRight (Path u) ''/''\<rparr>)"
proof -
  have "String (u\<lparr>Fragment := [], RawFragment := [], Path := TrimRight (Path u) ''/''\<rparr>) =
        String ((u\<lparr>Fragment := [], Path := TrimRight (Path u) ''/''\<rparr>)\<lparr>RawFragment := []\<rparr>)"
    by (cases u) simp
  also have "\<dots> = String (u\<lparr>Fragment := [], Path := TrimRight (Path u) ''/''\<rparr>)"
    by (rule EscapedFragment_unused) simp
  finally show ?thesis by (simp add: normalizeURL_def go_url_def)
qed

lemma same_key:
  assumes "url_Parse go_url u = Inr p" and "url_Parse go_url u' = Inr p'"
    and "p'\<lparr>Fragment := [], RawFragment := [], Path := TrimRight (Path p') ''/''\<rparr> =
         p\<lparr>Fragment := [], RawFragment := [], Path := TrimRight (Path p) ''/''\<rparr>"
  shows "canonical go_url u' = canonical go_url u"
  using assms by (simp add: canonical_def normalizeURL_go)

text \<open>
  C1. A second call of \<open>AddURL\<close> with a URL of the same canonical form is not always
  without effect. \<open>normalizeURL\<close> strips the trailing slashes of \<open>Path\<close> and leaves
  \<open>RawPath\<close> as it was; where \<open>url.Parse\<close> has set \<open>RawPath\<close>, as it does for a path
  with a parenthesis, \<open>String\<close> then finds that \<open>RawPath\<close> is no longer an encoding of
  \<open>Path\<close> and prints \<open>Path\<close> escaped. In the tree of \<open>https://x.test/docs\<close>, after
  \<open>AddURL("https://x.test/docs/a(1)/", root)\<close> has returned node 1,
  \<open>AddURL("https://x.test/docs/a(1)", root)\<close> returns a second node, 2, and the root has
  both as its children: the key of the first URL is \<open>https://x.test/docs/a%281%29\<close>, that
  of the second \<open>https://x.test/docs/a(1)\<close>.
\<close>

theorem AddURL_raw_path_duplicate:
  "url_Parse go_url ''https://x.test/docs/a(1)/'' =
     Inr ((plain_URL ''https'' ''x.test'' ''/docs/a(1)/'' [])\<lparr>RawPath := ''/docs/a(1)/''\<rparr>) \<and>
   url_Parse go_url ''https://x.test/docs/a(1)'' =
     Inr ((plain_URL ''https'' ''x.test'' ''/docs/a(1)'' [])\<lparr>RawPath := ''/docs/a(1)''\<rparr>) \<and>
   snd (AddURL go_url docs_tree ''https://x.test/docs/a(1)/'' (Some 0)) = Inr (Some 1) \<and>
   snd (AddURL go_url (fst (AddURL go_url docs_tree ''https://x.test/docs/a(1)/'' (Some 0)))
          ''https://x.test/docs/a(1)'' (Some 0)) = Inr (Some 2) \<and>
   Children (cell (fst (fst (AddURL go_url
                (fst (AddURL go_url docs_tree ''https://x.test/docs/a(1)/'' (Some 0)))
                ''https://x.test/docs/a(1)'' (Some 0)))) 0) = [1, 2] \<and>
   canonical go_url ''https://x.test/docs/a(1)/'' = Some ''https://x.test/docs/a%281%29'' \<and>
   canonical go_url ''https://x.test/docs/a(1)'' = Some ''https://x.test/docs/a(1)''"
  by code_simp

subsection \<open>The search returns\<close>

lemma find_app:
  "List.find P (xs @ ys) = (case List.find P xs of None \<Rightarrow> List.find P ys | Some x \<Rightarrow> Some x)"
  by (induction xs) auto

lemma findNode_sound:
  "findNodeRecursive k L h p target = Some r \<Longrightarrow>
     r = (case p of None \<Rightarrow> None | Some a \<Rightarrow> List.find (matches L h target) (dfs k h a))"
  "findNodeChildren k L h cs target = Some r \<Longrightarrow>
     r = List.find (matches L h target) (concat (map (dfs k h) cs))"
proof (induction k L h p target and k L h cs target arbitrary: r and r
    rule: findNodeRecursive_findNodeChildren.induct)
  case (1 k L h target)
  then show ?case by simp
next
  case (2 L h a target)
  then show ?case by simp
next
  case (3 k L h a target)
  then show ?case by (auto split: if_splits)
next
  case (4 k L h target)
  then show ?case by simp
next
  case (5 k L h child rest target)
  show ?case
  proof (cases "findNodeRecursive k L h (Some child) target")
    case None
    with 5(3) show ?thesis by simp
  next
    case (Some r1)
    from 5(1) [OF Some] have r1: "r1 = List.find (matches L h target) (dfs k h child)" by simp
    show ?thesis
    proof (cases r1)
      case None
      with Some 5(3) have "findNodeChildren k L h rest target = Some r" by simp
      from 5(2) [OF Some None this] r1 None show ?thesis by (simp add: find_app)
    next
      case (Some found)
      with r1 have f: "List.find (matches L h target) (dfs k h child) = Some found" by simp
      from \<open>findNodeRecursive k L h (Some child) target = Some r1\<close> Some 5(3)
      have "r = Some found" by simp
      with f show ?thesis by (simp add: find_app)
    qed
  qed
qed

lemma findNodeChildren_total:
  assumes each: "\<forall>c \<in> set cs. \<exists>r. findNodeRecursive k L h (Some c) target = Some r"
  shows "\<exists>r. findNodeChildren k L h cs target = Some r"
  using each
proof (induction cs)
  case Nil
  show ?case by simp
next
  case (Cons c cs)
  from Cons.prems obtain r1 where r1: "findNodeRecursive k L h (Some c) target = Some r1"
    by auto
  from Cons.prems have "\<forall>c \<in> set cs. \<exists>r. findNodeRecursive k L h (Some c) target = Some r"
    by simp
  from Cons.IH [OF this] obtain r2 where "findNodeChildren k L h cs target = Some r2" ..
  with r1 show ?case by (cases r1) simp_all
qed

lemma findNode_total:
  assumes fw: "forward h"
  shows "a < next h \<Longrightarrow> next h - a \<le> k \<Longrightarrow> \<exists>r. findNodeRecursive k L h (Some a) target = Some r"
proof (induction k arbitrary: a)
  case 0
  then have False by arith
  then show ?case ..
next
  case (Suc k)
  have "\<exists>r. findNodeRecursive k L h (Some c) target = Some r"
    if c: "c \<in> set (Children (cell h a))" for c
  proof -
    from fw Suc.prems(1) c have "a < c \<and> c < next h" unfolding forward_def by blast
    then have "a < c" "c < next h" by blast+
    with Suc.prems(2) have "next h - c \<le> k" by arith
    with \<open>c < next h\<close> show ?thesis by (rule Suc.IH)
  qed
  then have "\<exists>r. findNodeChildren k L h (Children (cell h a)) target = Some r"
    by (intro findNodeChildren_total) simp
  then show ?case by simp
qed

lemma dfs_stable:
  assumes fw: "forward h"
  shows "a < next h \<Longrightarrow> next h - a \<le> k \<Longrightarrow> dfs (Suc k) h a = dfs k h a"
proof (induction k arbitrary: a)
  case 0
  then have False by arith
  then show ?case ..
next
  case (Suc k)
  have "dfs (Suc k) h c = dfs k h c" if "c \<in> set (Children (cell h a))" for c
  proof -
    from fw Suc.prems(1) that have "a < c \<and> c < next h" unfolding forward_def by blast
    then have "a < c" "c < next h" by blast+
    with Suc.prems(2) have "next h - c \<le> Suc k" by arith
    with \<open>a < c\<close> Suc.prems(2) have "next h - c \<le> k" by arith
    with \<open>c < next h\<close> show ?thesis by (rule Suc.IH)
  qed
  then have "map (dfs (Suc k) h) (Children (cell h a)) = map (dfs k h) (Children (cell h a))"
    by (rule map_cong [OF refl])
  then show ?case by (simp only: dfs.simps)
qed

lemma dfs_allocated:
  assumes fw: "forward h"
  shows "a < next h \<Longrightarrow> set (dfs k h a) \<subseteq> {x. x < next h}"
proof (induction k arbitrary: a)
  case 0
  then show ?case by simp
next
  case (Suc k)
  have "set (dfs k h c) \<subseteq> {x. x < next h}" if "c \<in> set (Children (cell h a))" for c
  proof -
    from fw Suc.prems that have "c < next h" unfolding forward_def by blast
    then show ?thesis by (rule Suc.IH)
  qed
  with Suc.prems show ?case by auto
qed

lemma tree_inv_forward:
  assumes "tree_inv s"
  shows "forward (fst s)"
  unfolding forward_def
proof (intro allI impI ballI)
  fix a c assume "a < next (fst s)" "c \<in> set (Children (cell (fst s) a))"
  moreover from assms \<open>a < next (fst s)\<close> have "node_ok (fst s) a"
    by (cases s) (simp add: tree_inv_alt)
  ultimately show "a < c \<and> c < next (fst s)" by (simp add: node_ok_def)
qed

lemma uint_small:
  fixes w :: "64 word"
  assumes "unat w < 2 ^ 63"
  shows "uint w < 2 ^ 63"
  using assms by transfer simp

lemma uint_lower:
  fixes w :: "64 word"
  shows "- (2 ^ 63) \<le> uint w"
proof -
  have "(0::int) \<le> uint w" by simp
  moreover have "- (2 ^ 63) \<le> (0::int)" by simp
  ultimately show ?thesis by (rule order_trans [rotated])
qed

lemma sint_small:
  fixes w :: "64 word"
  assumes "unat w < 2 ^ 63"
  shows "sint w = int (unat w)"
proof -
  have "signed_take_bit 63 (uint w) = uint w"
    using uint_small [OF assms] uint_lower [of w] by (simp only: signed_take_bit_int_eq_self_iff)
  then have "sint w = uint w" by (simp add: sint_uint)
  then show ?thesis by simp
qed

lemma sint_succ:
  fixes d :: "64 word"
  assumes "unat d \<le> p" "p < a" "a < 2 ^ 63"
  shows "sint (d + 1) = sint d + 1"
proof -
  from assms have small: "unat d + 1 < 2 ^ 63" by simp
  then have "unat d + 1 < 2 ^ 64" by simp
  then have u: "unat (d + 1) = unat d + 1" by (simp add: unat_word_ariths)
  from small have "unat d < 2 ^ 63" by simp
  then have "sint d = int (unat d)" by (rule sint_small)
  moreover from small u have "unat (d + 1) < 2 ^ 63" by simp
  then have "sint (d + 1) = int (unat (d + 1))" by (rule sint_small)
  ultimately show ?thesis using u by simp
qed

subsection \<open>Depths\<close>

text \<open>
  C5. In every tree built by \<open>NewWebTree\<close> and \<open>AddURL\<close>: the root has depth 0; the nodes
  reachable from the root are allocated nodes; every allocated node with a parent (a
  node created under a non-nil parent) has the depth of its parent plus 1, in Go's 64-bit
  arithmetic and, as long as the heap holds at most \<open>2 ^ 63\<close> nodes, as integers too;
  and the parent of every child in a list of children is the node that holds the list.
\<close>

theorem depth_invariant:
  assumes "built L (h, t)"
  shows "(\<exists>r. RootNode t = Some r \<and> r < next h \<and> Depth (cell h r) = 0) \<and>
         set (dfs_from h (RootNode t)) \<subseteq> {a. a < next h} \<and>
         (\<forall>a < next h. \<forall>p. Parent (cell h a) = Some p \<longrightarrow>
            p < next h \<and> Depth (cell h a) = Depth (cell h p) + 1 \<and>
            (next h \<le> 2 ^ 63 \<longrightarrow> sint (Depth (cell h a)) = sint (Depth (cell h p)) + 1)) \<and>
         (\<forall>a < next h. \<forall>c \<in> set (Children (cell h a)). c < next h \<and> Parent (cell h c) = Some a)"
proof -
  from assms have inv: "tree_inv (h, t)" by (rule built_tree_inv)
  then obtain r where root: "RootNode t = Some r" "r < next h" "Parent (cell h r) = None"
    and ok: "\<And>a. a < next h \<Longrightarrow> node_ok h a"
    by (auto simp: tree_inv_alt)
  from ok [OF root(2)] root(3) have "Depth (cell h r) = 0" by (simp add: node_ok_def)
  with root have 1: "\<exists>r. RootNode t = Some r \<and> r < next h \<and> Depth (cell h r) = 0" by simp
  from inv have fw: "forward h" using tree_inv_forward [of "(h, t)"] by simp
  from root dfs_allocated [OF fw root(2)]
  have 2: "set (dfs_from h (RootNode t)) \<subseteq> {a. a < next h}" by (simp add: dfs_from_def)
  have 3: "p < next h \<and> Depth (cell h a) = Depth (cell h p) + 1 \<and>
          (next h \<le> 2 ^ 63 \<longrightarrow> sint (Depth (cell h a)) = sint (Depth (cell h p)) + 1)"
    if a: "a < next h" and par: "Parent (cell h a) = Some p" for a p
  proof -
    from ok [OF a] par have pa: "p < a" and eq: "Depth (cell h a) = Depth (cell h p) + 1"
      by (simp_all add: node_ok_def)
    from pa a have p: "p < next h" by simp
    have "sint (Depth (cell h a)) = sint (Depth (cell h p)) + 1" if small: "next h \<le> 2 ^ 63"
    proof -
      from small a have a63: "a < 2 ^ 63" by simp
      with pa have "p < 2 ^ 64" by simp
      with ok [OF p] have "unat (Depth (cell h p)) \<le> p" by (simp add: node_ok_def)
      from sint_succ [OF this pa a63] eq show ?thesis by simp
    qed
    with p eq show ?thesis by simp
  qed
  have 4: "c < next h \<and> Parent (cell h c) = Some a"
    if "a < next h" "c \<in> set (Children (cell h a))" for a c
    using ok [OF that(1)] that(2) by (simp add: node_ok_def)
  from 1 2 3 4 show ?thesis by blast
qed

lemma dfs_from_unfold:
  assumes fw: "forward h" and a: "a < next h"
  shows "dfs_from h (Some a) =
           a # concat (map (\<lambda>c. dfs_from h (Some c)) (Children (cell h a)))"
proof -
  from a obtain k where k: "next h = Suc k" by (cases "next h") simp_all
  have "dfs k h c = dfs (Suc k) h c" if c: "c \<in> set (Children (cell h a))" for c
  proof -
    from fw a c have "a < c \<and> c < next h" unfolding forward_def by blast
    then have "c < next h" "next h - c \<le> k" using k by arith+
    then show ?thesis by (rule dfs_stable [OF fw, symmetric])
  qed
  then have m: "map (dfs k h) (Children (cell h a)) = map (dfs (Suc k) h) (Children (cell h a))"
    by (rule map_cong [OF refl])
  have f: "dfs_from h (Some c) = dfs (Suc k) h c" for c
    by (simp only: dfs_from_def k option.case)
  have "dfs_from h (Some a) = a # concat (map (dfs k h) (Children (cell h a)))"
    by (simp only: f dfs.simps)
  also have "\<dots> = a # concat (map (dfs (Suc k) h) (Children (cell h a)))"
    by (simp only: m)
  also have "map (dfs (Suc k) h) (Children (cell h a)) =
             map (\<lambda>c. dfs_from h (Some c)) (Children (cell h a))"
    by (simp only: f)
  finally show ?thesis .
qed

subsection \<open>Searching the tree\<close>

text \<open>
  C8, as amended. On every built tree \<open>FindNode\<close> returns (the fuel suffices), and what it
  returns is the first node, in depth-first order from the root, whose URL prints like the
  target once both fragments are cleared; nil when there is none or when the string does
  not parse. Trailing slashes are not stripped in this comparison. The second conjunct
  says that \<open>dfs_from\<close> is the depth-first order of the whole tree: a node, then the
  orders of its children from left to right.
\<close>

theorem FindNode_first_match:
  assumes "built L s"
  shows "FindNode L s urlStr =
           Some (case url_Parse L urlStr of
                   Inl err \<Rightarrow> None
                 | Inr target \<Rightarrow>
                     List.find (matches L (fst s) target) (dfs_from (fst s) (RootNode (snd s)))) \<and>
         (\<forall>a < next (fst s). dfs_from (fst s) (Some a) =
            a # concat (map (\<lambda>c. dfs_from (fst s) (Some c)) (Children (cell (fst s) a))))"
proof -
  obtain h t where s: "s = (h, t)" by (cases s)
  from assms have inv: "tree_inv s" by (rule built_tree_inv)
  then have fw: "forward h" using tree_inv_forward [of s] s by simp
  from inv s obtain r where root: "RootNode t = Some r" "r < next h"
    by (auto simp: tree_inv_alt)
  have 1: "FindNode L s urlStr =
           Some (case url_Parse L urlStr of
                   Inl err \<Rightarrow> None
                 | Inr target \<Rightarrow>
                     List.find (matches L (fst s) target) (dfs_from (fst s) (RootNode (snd s))))"
  proof (cases "url_Parse L urlStr")
    case (Inl e)
    then show ?thesis by (simp add: FindNode_def)
  next
    case (Inr target)
    from root(2) have "next h - r \<le> next h" by simp
    from findNode_total [OF fw root(2) this]
    obtain res where res: "findNodeRecursive (next h) L h (Some r) target = Some res" ..
    from findNode_sound(1) [OF res]
    have "res = List.find (matches L h target) (dfs (next h) h r)" by simp
    with res Inr root s show ?thesis by (simp add: FindNode_def dfs_from_def)
  qed
  from dfs_from_unfold [OF fw] s 1 show ?thesis by simp
qed

lemma built_docs_tree2: "built go_url docs_tree2"
proof -
  have "allocated (fst docs_tree) (Some 0)"
    by (simp add: allocated_def docs_tree_def NewWebTree_def NewWebNode_def parse_docs
        alloc_def empty_heap_def)
  with built_docs_tree show ?thesis unfolding docs_tree2_def by (rule built_add)
qed

theorem depth_invariant_witness:
  "built go_url (fst docs_tree2, snd docs_tree2) \<and>
   next (fst docs_tree2) = 2 \<and>
   RootNode (snd docs_tree2) = Some 0 \<and>
   Parent (cell (fst docs_tree2) 1) = Some 0 \<and>
   Depth (cell (fst docs_tree2) 0) = 0 \<and>
   Depth (cell (fst docs_tree2) 1) = Depth (cell (fst docs_tree2) 0) + 1 \<and>
   sint (Depth (cell (fst docs_tree2) 1)) = sint (Depth (cell (fst docs_tree2) 0)) + 1"
proof -
  have b: "built go_url (fst docs_tree2, snd docs_tree2)" using built_docs_tree2 by simp
  have n: "next (fst docs_tree2) = 2" by code_simp
  have r: "RootNode (snd docs_tree2) = Some 0" by code_simp
  have p: "Parent (cell (fst docs_tree2) 1) = Some 0" by code_simp
  note inv = depth_invariant [OF b]
  from inv r have d0: "Depth (cell (fst docs_tree2) 0) = 0" by auto
  from inv have "\<forall>a < next (fst docs_tree2). \<forall>p. Parent (cell (fst docs_tree2) a) = Some p \<longrightarrow>
      p < next (fst docs_tree2) \<and>
      Depth (cell (fst docs_tree2) a) = Depth (cell (fst docs_tree2) p) + 1 \<and>
      (next (fst docs_tree2) \<le> 2 ^ 63 \<longrightarrow>
         sint (Depth (cell (fst docs_tree2) a)) = sint (Depth (cell (fst docs_tree2) p)) + 1)"
    by blast
  moreover have "1 < next (fst docs_tree2)" using n by simp
  moreover have "next (fst docs_tree2) \<le> 2 ^ 63" using n by simp
  ultimately
  have "Depth (cell (fst docs_tree2) 1) = Depth (cell (fst docs_tree2) 0) + 1 \<and>
        sint (Depth (cell (fst docs_tree2) 1)) = sint (Depth (cell (fst docs_tree2) 0)) + 1"
    using p by blast
  with b n r p d0 show ?thesis by blast
qed

theorem FindNode_first_match_witness:
  "built go_url docs_tree2 \<and>
   dfs_from (fst docs_tree2) (RootNode (snd docs_tree2)) = [0, 1] \<and>
   FindNode go_url docs_tree2 ''https://x.test/docs/a/#top'' = Some (Some 1)"
proof -
  have d: "dfs_from (fst docs_tree2) (RootNode (snd docs_tree2)) = [0, 1]" by code_simp
  have m: "(case url_Parse go_url ''https://x.test/docs/a/#top'' of
              Inl err \<Rightarrow> None
            | Inr target \<Rightarrow>
                List.find (matches go_url (fst docs_tree2) target)
                  (dfs_from (fst docs_tree2) (RootNode (snd docs_tree2)))) = Some 1"
    by code_simp
  from FindNode_first_match [OF built_docs_tree2, of "''https://x.test/docs/a/#top''"] m
  have "FindNode go_url docs_tree2 ''https://x.test/docs/a/#top'' = Some (Some 1)" by simp
  with built_docs_tree2 d show ?thesis by simp
qed

text \<open>
  C8 as claimed fails: node 1 is reachable from the root and has the canonical form of
  \<open>https://x.test/docs/a\<close> (its URL is \<open>https://x.test/docs/a/\<close>), yet \<open>FindNode\<close> returns
  nil for that string.
\<close>

theorem FindNode_canonical_counterexample:
  "canonical go_url ''https://x.test/docs/a'' =
     Some (normalizeURL go_url (URL (cell (fst docs_tree2) 1))) \<and>
   1 \<in> set (dfs_from (fst docs_tree2) (RootNode (snd docs_tree2))) \<and>
   FindNode go_url docs_tree2 ''https://x.test/docs/a'' = Some None"
  by code_simp

section \<open>The link classifier\<close>

subsection \<open>The string functions\<close>

lemma HasPrefix_slash: "HasPrefix s ''/'' \<longleftrightarrow> (\<exists>t. s = CHR ''/'' # t)"
  by (cases s) (auto simp: HasPrefix_def)

lemma LastIndex_Nil: "LastIndex [] ''/'' = - 1"
  by (simp add: LastIndex_def HasPrefix_def)

lemma filter_slash_snoc:
  "filter (\<lambda>i. HasPrefix (drop i (xs @ [c])) ''/'') (rev [0..<length xs]) =
   filter (\<lambda>i. HasPrefix (drop i xs) ''/'') (rev [0..<length xs])"
proof (rule filter_cong [OF refl])
  fix i assume "i \<in> set (rev [0..<length xs])"
  then have "i < length xs" by simp
  then obtain y ys where "drop i xs = y # ys" by (cases "drop i xs") simp_all
  then show "HasPrefix (drop i (xs @ [c])) ''/'' = HasPrefix (drop i xs) ''/''"
    using \<open>i < length xs\<close> by (simp add: HasPrefix_def)
qed

lemma LastIndex_snoc:
  "LastIndex (xs @ [c]) ''/'' = (if c = CHR ''/'' then int (length xs) else LastIndex xs ''/'')"
proof -
  have "HasPrefix (drop (length xs) (xs @ [c])) ''/'' = (c = CHR ''/'')"
    by (simp add: HasPrefix_def)
  moreover have "\<not> HasPrefix (drop (Suc (length xs)) (xs @ [c])) ''/''"
    by (simp add: HasPrefix_def)
  moreover have "\<not> HasPrefix (drop (length xs) xs) ''/''"
    by (simp add: HasPrefix_def)
  ultimately show ?thesis
    unfolding LastIndex_def using filter_slash_snoc [of xs c] by simp
qed

lemma parent_path_Nil: "parent_path [] = None"
  by (simp add: parent_path_def)

lemma parent_path_snoc:
  "parent_path (xs @ [c]) = (if c = CHR ''/'' then Some xs else parent_path xs)"
  by (simp add: parent_path_def)

lemma LastIndex_parent_path:
  "(case parent_path s of
      None \<Rightarrow> LastIndex s ''/'' = - 1
    | Some p \<Rightarrow> LastIndex s ''/'' = int (length p) \<and> take (length p) s = p)"
proof (induction s rule: rev_induct)
  case Nil
  show ?case by (simp add: parent_path_Nil LastIndex_Nil)
next
  case (snoc c xs)
  show ?case
  proof (cases "c = CHR ''/''")
    case True
    then show ?thesis by (simp add: parent_path_snoc LastIndex_snoc)
  next
    case False
    show ?thesis
    proof (cases "parent_path xs")
      case None
      with snoc False show ?thesis by (simp add: parent_path_snoc LastIndex_snoc)
    next
      case (Some p)
      with snoc have li: "LastIndex xs ''/'' = int (length p)" and tk: "take (length p) xs = p"
        by simp_all
      from tk have "length (take (length p) xs) = length p" by simp
      then have "length p \<le> length xs" by simp
      with Some False li tk show ?thesis by (simp add: parent_path_snoc LastIndex_snoc)
    qed
  qed
qed

lemma Contains_iff: "Contains s sub \<longleftrightarrow> (\<exists>pre post. s = pre @ sub @ post)"
proof (induction s)
  case Nil
  show ?case by auto
next
  case (Cons c cs)
  have "HasPrefix (c # cs) sub \<longleftrightarrow> (\<exists>post. c # cs = sub @ post)"
    unfolding HasPrefix_def
    by (metis append_eq_conv_conj append_take_drop_id)
  moreover have "(\<exists>pre post. c # cs = pre @ sub @ post) \<longleftrightarrow>
      (\<exists>post. c # cs = sub @ post) \<or> (\<exists>pre post. cs = pre @ sub @ post)"
  proof
    assume "\<exists>pre post. c # cs = pre @ sub @ post"
    then obtain pre post where e: "c # cs = pre @ sub @ post" by blast
    show "(\<exists>post. c # cs = sub @ post) \<or> (\<exists>pre post. cs = pre @ sub @ post)"
    proof (cases pre)
      case Nil
      with e show ?thesis by auto
    next
      case (Cons p ps)
      with e have "cs = ps @ sub @ post" by simp
      then show ?thesis by blast
    qed
  next
    assume "(\<exists>post. c # cs = sub @ post) \<or> (\<exists>pre post. cs = pre @ sub @ post)"
    then show "\<exists>pre post. c # cs = pre @ sub @ post"
    proof
      assume "\<exists>post. c # cs = sub @ post"
      then obtain post where "c # cs = [] @ sub @ post" by auto
      then show ?thesis by blast
    next
      assume "\<exists>pre post. cs = pre @ sub @ post"
      then obtain pre post where "cs = pre @ sub @ post" by blast
      then have "c # cs = (c # pre) @ sub @ post" by simp
      then show ?thesis by blast
    qed
  qed
  ultimately show ?case using Cons.IH by simp
qed

lemma TrimRight_decomp: "\<exists>n. s = TrimRight s ''/'' @ replicate n (CHR ''/'')"
proof (induction s rule: rev_induct)
  case Nil
  show ?case by (simp add: TrimRight_def)
next
  case (snoc c xs)
  show ?case
  proof (cases "c = CHR ''/''")
    case True
    define t where "t = TrimRight xs ''/''"
    from snoc obtain n where n: "xs = t @ replicate n (CHR ''/'')" unfolding t_def ..
    have "TrimRight (xs @ [c]) ''/'' = t"
      using True by (simp add: TrimRight_def t_def)
    moreover have "xs @ [c] = t @ replicate (Suc n) (CHR ''/'')"
      unfolding n using True by (simp add: replicate_append_same)
    ultimately have "xs @ [c] = TrimRight (xs @ [c]) ''/'' @ replicate (Suc n) (CHR ''/'')"
      by simp
    then show ?thesis ..
  next
    case False
    then have "TrimRight (xs @ [c]) ''/'' = xs @ [c]" by (simp add: TrimRight_def)
    then have "xs @ [c] = TrimRight (xs @ [c]) ''/'' @ replicate 0 (CHR ''/'')" by simp
    then show ?thesis by blast
  qed
qed

lemma Contains_TrimRight:
  assumes ne: "sub \<noteq> []" and ns: "CHR ''/'' \<notin> set sub"
  shows "Contains (TrimRight s ''/'') sub \<longleftrightarrow> Contains s sub"
proof
  assume "Contains (TrimRight s ''/'') sub"
  then obtain pre post where e: "TrimRight s ''/'' = pre @ sub @ post"
    unfolding Contains_iff by blast
  from TrimRight_decomp [of s] obtain n where "s = TrimRight s ''/'' @ replicate n (CHR ''/'')" ..
  then have "s = (pre @ sub @ post) @ replicate n (CHR ''/'')" unfolding e .
  then have "s = pre @ sub @ (post @ replicate n (CHR ''/''))" by simp
  then show "Contains s sub" unfolding Contains_iff by blast
next
  assume "Contains s sub"
  then obtain pre post where e: "s = pre @ sub @ post" unfolding Contains_iff by blast
  from ne obtain b l where sub: "sub = b @ [l]" by (cases sub rule: rev_cases) simp_all
  with ns have l: "l \<noteq> CHR ''/''" by auto
  have "rev s = rev post @ (l # rev b @ rev pre)" using e sub by simp
  then have "dropWhile (\<lambda>c. c \<in> set ''/'') (rev s) =
         (if \<forall>x \<in> set (rev post). x \<in> set ''/'' then l # rev b @ rev pre
          else dropWhile (\<lambda>c. c \<in> set ''/'') (rev post) @ (l # rev b @ rev pre))"
    using l by (simp add: dropWhile_append)
  then obtain zs where "dropWhile (\<lambda>c. c \<in> set ''/'') (rev s) = zs @ (l # rev b @ rev pre)"
    by (metis append_Nil)
  then have "TrimRight s ''/'' = pre @ sub @ rev zs" by (simp add: TrimRight_def sub)
  then show "Contains (TrimRight s ''/'') sub" unfolding Contains_iff by blast
qed

subsection \<open>What the classifier accepts\<close>

lemma isParentURL_parsed:
  assumes r: "url_Parse L (RootURL hc) = Inr root" and c: "url_Parse L link = Inr cand"
  shows "snd (isParentURL L hc link) \<longleftrightarrow>
     Host root = Host cand \<and>
     (\<exists>parentPath. parent_path (TrimRight (Path root) ''/'') = Some parentPath \<and>
        (TrimRight (Path cand) ''/'' = parentPath \<or>
         Contains parentPath ''prompt-engineering'' \<and> Contains (Path cand) ''prompt-engineering''))"
proof (cases "Host root = Host cand")
  case False
  with r c show ?thesis by (simp add: isParentURL_def)
next
  case True
  have kw: "Contains (TrimRight (Path cand) ''/'') ''prompt-engineering'' =
            Contains (Path cand) ''prompt-engineering''"
    by (rule Contains_TrimRight) simp_all
  show ?thesis
  proof (cases "parent_path (TrimRight (Path root) ''/'')")
    case None
    with LastIndex_parent_path [of "TrimRight (Path root) ''/''"]
    have "LastIndex (TrimRight (Path root) ''/'') ''/'' = - 1" by simp
    with r c True None show ?thesis by (simp add: isParentURL_def Let_def)
  next
    case (Some p)
    with LastIndex_parent_path [of "TrimRight (Path root) ''/''"]
    have li: "LastIndex (TrimRight (Path root) ''/'') ''/'' = int (length p)"
      and tk: "take (length p) (TrimRight (Path root) ''/'') = p" by simp_all
    from li have "LastIndex (TrimRight (Path root) ''/'') ''/'' \<noteq> - 1" by simp
    with r c True Some li tk kw show ?thesis
      by (simp add: isParentURL_def Let_def del: Contains.simps)
  qed
qed

text \<open>
  C2, as amended. \<open>isParentURL\<close> accepts a link exactly when both the root URL and the
  link parse, their hosts are equal, the root path with its trailing slashes stripped has
  a parent-path (it contains a \<open>/\<close>), and either the path of the link with its trailing
  slashes stripped is that parent-path, or both that parent-path and the path of the link
  contain \<open>prompt-engineering\<close>. It returns a verdict in every case: an unparsable
  root or link is rejected.
\<close>

theorem isParentURL_iff:
  "snd (isParentURL L hc link) \<longleftrightarrow>
     (\<exists>root cand parentPath.
        url_Parse L (RootURL hc) = Inr root \<and> url_Parse L link = Inr cand \<and>
        Host root = Host cand \<and>
        parent_path (TrimRight (Path root) ''/'') = Some parentPath \<and>
        (TrimRight (Path cand) ''/'' = parentPath \<or>
         Contains parentPath ''prompt-engineering'' \<and> Contains (Path cand) ''prompt-engineering''))"
proof (cases "url_Parse L (RootURL hc)")
  case (Inl e)
  then show ?thesis by (simp add: isParentURL_def)
next
  case r: (Inr root)
  show ?thesis
  proof (cases "url_Parse L link")
    case (Inl e)
    with r show ?thesis by (simp add: isParentURL_def)
  next
    case c: (Inr cand)
    from isParentURL_parsed [OF r c] r c show ?thesis by auto
  qed
qed

theorem isParentURL_iff_witness:
  "snd (isParentURL go_url (explorer ''https://x.test/a/b/c'' False) ''https://x.test/a/b/'') \<and>
   \<not> snd (isParentURL go_url (explorer ''https://x.test/a/b/c'' False) ''https://x.test/a/b/c/d'') \<and>
   \<not> snd (isParentURL go_url (explorer ''https://x.test/a/b/c'' False) ''https://other.test/a/b'') \<and>
   (\<exists>root cand parentPath.
      url_Parse go_url (RootURL (explorer ''https://x.test/a/b/c'' False)) = Inr root \<and>
      url_Parse go_url ''https://x.test/a/b/'' = Inr cand \<and>
      Host root = Host cand \<and>
      parent_path (TrimRight (Path root) ''/'') = Some parentPath \<and>
      (TrimRight (Path cand) ''/'' = parentPath \<or>
       Contains parentPath ''prompt-engineering'' \<and> Contains (Path cand) ''prompt-engineering''))"
proof -
  have 1: "snd (isParentURL go_url (explorer ''https://x.test/a/b/c'' False) ''https://x.test/a/b/'')"
    by code_simp
  have 2: "\<not> snd (isParentURL go_url (explorer ''https://x.test/a/b/c'' False) ''https://x.test/a/b/c/d'')"
    by code_simp
  have 3: "\<not> snd (isParentURL go_url (explorer ''https://x.test/a/b/c'' False) ''https://other.test/a/b'')"
    by code_simp
  from 1 2 3 isParentURL_iff [of go_url "explorer ''https://x.test/a/b/c'' False" "''https://x.test/a/b/''"]
  show ?thesis by blast
qed

text \<open>
  C2 as claimed takes the parent-path of the root path itself. For the root
  \<open>https://x.test/docs/\<close> that is \<open>/docs\<close>, the path of the link \<open>https://x.test/docs\<close>,
  on the same host; the classifier strips the root path to \<open>/docs\<close> first, takes the
  parent-path of that, the empty path, and rejects the link.
\<close>

theorem isParentURL_root_slash_counterexample:
  "url_Parse go_url (RootURL (explorer ''https://x.test/docs/'' False)) =
     Inr (plain_URL ''https'' ''x.test'' ''/docs/'' []) \<and>
   url_Parse go_url ''https://x.test/docs'' = Inr (plain_URL ''https'' ''x.test'' ''/docs'' []) \<and>
   Host (plain_URL ''https'' ''x.test'' ''/docs/'' []) = Host (plain_URL ''https'' ''x.test'' ''/docs'' []) \<and>
   CHR ''/'' \<in> set (Path (plain_URL ''https'' ''x.test'' ''/docs/'' [])) \<and>
   parent_path (Path (plain_URL ''https'' ''x.test'' ''/docs/'' [])) =
     Some (TrimRight (Path (plain_URL ''https'' ''x.test'' ''/docs'' [])) ''/'') \<and>
   \<not> snd (isParentURL go_url (explorer ''https://x.test/docs/'' False) ''https://x.test/docs'')"
  by code_simp

section \<open>Exploration\<close>

lemma first_new_set: "set (first_new seen xs) = set xs - {x. seen x}"
  by (induction seen xs rule: first_new.induct) auto

lemma first_new_distinct: "distinct (first_new seen xs)"
  by (induction seen xs rule: first_new.induct) (auto simp: first_new_set)

lemma reported_append: "reported (a @ b) = reported a @ reported b"
  by (simp add: reported_def)

lemma isParentURL_cong:
  "RootURL a = RootURL b \<Longrightarrow> Debug a = Debug b \<Longrightarrow> isParentURL L a link = isParentURL L b link"
  by (simp add: isParentURL_def Let_def split: sum.splits)

lemma reported_dbg: "reported (fst (isParentURL L s link)) = []"
  by (auto simp: isParentURL_def reported_def Let_def split: sum.splits)

lemma processLink_effect:
  "RootURL (processLink L s link) = RootURL s \<and> Debug (processLink L s link) = Debug s \<and>
   fetched (processLink L s link) = fetched s \<and>
   reported (stdout (processLink L s link)) =
     reported (stdout s) @
       (if snd (isParentURL L s link) \<and> \<not> lookup_bool (PrintedURLs s) (removeFragment L link)
        then [removeFragment L link] else []) \<and>
   (\<lambda>c. lookup_bool (PrintedURLs (processLink L s link)) c) =
     (if snd (isParentURL L s link) \<and> \<not> lookup_bool (PrintedURLs s) (removeFragment L link)
      then (\<lambda>c. lookup_bool (PrintedURLs s) c \<or> c = removeFragment L link)
      else (\<lambda>c. lookup_bool (PrintedURLs s) c))"
proof (cases "isParentURL L s link")
  case (Pair dbg accepted)
  with reported_dbg [of L s link] have dbg: "reported dbg = []" by simp
  show ?thesis
  proof (cases accepted)
    case True
    with Pair dbg show ?thesis
      by (auto simp: processLink_alt report_def print_def Let_def reported_append reported_def
          lookup_bool_def fun_eq_iff)
  next
    case False
    with Pair dbg show ?thesis
      by (auto simp: processLink_alt filtered_def print_def reported_append reported_def)
  qed
qed

lemma processLinks_reported:
  "reported (stdout (foldl (processLink L) s links)) =
     reported (stdout s) @
       first_new (\<lambda>c. lookup_bool (PrintedURLs s) c)
         (map (removeFragment L) (filter (\<lambda>l. snd (isParentURL L s l)) links))"
proof (induction links arbitrary: s)
  case Nil
  show ?case by simp
next
  case (Cons link links)
  let ?s1 = "processLink L s link"
  note eff = processLink_effect [of L s link]
  from eff have same: "isParentURL L ?s1 l = isParentURL L s l" for l
    by (intro isParentURL_cong) simp_all
  have IH: "reported (stdout (foldl (processLink L) ?s1 links)) =
     reported (stdout ?s1) @
       first_new (\<lambda>c. lookup_bool (PrintedURLs ?s1) c)
         (map (removeFragment L) (filter (\<lambda>l. snd (isParentURL L s l)) links))"
    using Cons.IH [of ?s1] by (simp only: same)
  show ?case
  proof (cases "snd (isParentURL L s link)")
    case False
    with eff IH show ?thesis by simp
  next
    case True
    show ?thesis
    proof (cases "lookup_bool (PrintedURLs s) (removeFragment L link)")
      case seen: True
      with True eff IH show ?thesis by simp
    next
      case new: False
      with True eff IH show ?thesis by simp
    qed
  qed
qed

lemma NewExplorerContext_fields:
  assumes "NewExplorerContext L rootURL maxDepth debug = Inr s"
  shows "\<exists>root. url_Parse L rootURL = Inr root \<and> RootURL s = rootURL \<and>
           RootNode (WebTree s) = Some 0 \<and> PrintedURLs s = Map.empty \<and> stdout s = [] \<and>
           fetched s = [] \<and> Debug s = debug \<and> DownloadAll s = False \<and> Storage s = NullStorage"
  using assms
  by (cases "url_Parse L rootURL")
    (auto simp: NewExplorerContext_def NewWebTree_def NewWebNode_def alloc_def empty_heap_def)

text \<open>
  C4, as amended. When the root page is fetched, \<open>Explore\<close> on a new explorer context
  returns no error and prints exactly one report line for each form \<open>removeFragment\<close>
  gives the accepted links (the link with its fragment dropped; trailing slashes are
  kept), in the order of first occurrence.
\<close>

theorem Explore_reports_once:
  assumes ctx: "NewExplorerContext L rootURL maxDepth debug = Inr s"
    and page: "FetchPage E [] rootURL = Inr doc"
  shows "\<exists>root. url_Parse L rootURL = Inr root \<and> snd (Explore L E s) = None \<and>
     (let links = anchors E doc root;
          accepted = filter (\<lambda>l. snd (isParentURL L s l)) links;
          lines = reported (stdout (fst (Explore L E s)))
      in lines = first_new (\<lambda>c. False) (map (removeFragment L) accepted) \<and>
         distinct lines \<and> set lines = removeFragment L ` set accepted)"
proof -
  from NewExplorerContext_fields [OF ctx] obtain root where
    root: "url_Parse L rootURL = Inr root" and f: "RootURL s = rootURL"
    "RootNode (WebTree s) = Some 0" "PrintedURLs s = Map.empty" "stdout s = []" "fetched s = []"
    by blast
  let ?s2 = "s\<lparr>fetched := [rootURL], nodes := set_Title (nodes s) 0 (ExtractTitle E doc)\<rparr>"
  let ?links = "anchors E doc root"
  have ex: "Explore L E s = (foldl (processLink L) ?s2 ?links, None)"
    using root f page by (simp add: Explore_def ExtractLinks_def Let_def)
  have same: "isParentURL L ?s2 l = isParentURL L s l" for l
    by (intro isParentURL_cong) simp_all
  have "reported (stdout (fst (Explore L E s))) =
      first_new (\<lambda>c. False) (map (removeFragment L) (filter (\<lambda>l. snd (isParentURL L s l)) ?links))"
    unfolding ex using processLinks_reported [of L ?s2 ?links] f
    by (simp add: same reported_def lookup_bool_def)
  with root ex show ?thesis
    by (simp add: Let_def first_new_distinct first_new_set)
qed

theorem Explore_reports_once_witness:
  "NewExplorerContext go_url ''https://x.test/docs/guide/page'' 2 False =
     Inr (explorer ''https://x.test/docs/guide/page'' False) \<and>
   FetchPage (page_env ''https://x.test/docs/guide/page'' guide_links) [] ''https://x.test/docs/guide/page''
     = Inr guide_links \<and>
   reported (stdout (fst (Explore go_url (page_env ''https://x.test/docs/guide/page'' guide_links)
       (explorer ''https://x.test/docs/guide/page'' False)))) = [''https://x.test/docs/guide'']"
proof -
  have pr: "url_Parse go_url ''https://x.test/docs/guide/page'' =
      Inr (plain_URL ''https'' ''x.test'' ''/docs/guide/page'' [])" by code_simp
  have c: "NewExplorerContext go_url ''https://x.test/docs/guide/page'' 2 False =
     Inr (explorer ''https://x.test/docs/guide/page'' False)"
    by (simp add: explorer_def NewExplorerContext_def NewWebTree_def NewWebNode_def pr alloc_def)
  have p: "FetchPage (page_env ''https://x.test/docs/guide/page'' guide_links) []
      ''https://x.test/docs/guide/page'' = Inr guide_links"
    by (simp add: page_env_def)
  have a: "anchors (page_env ''https://x.test/docs/guide/page'' guide_links) guide_links root
      = guide_links" for root
    by (simp add: page_env_def)
  have v: "first_new (\<lambda>c. False) (map (removeFragment go_url)
       (filter (\<lambda>l. snd (isParentURL go_url (explorer ''https://x.test/docs/guide/page'' False) l))
          guide_links)) = [''https://x.test/docs/guide'']"
    by code_simp
  from Explore_reports_once [OF c p] a v c p show ?thesis by (simp add: Let_def)
qed

text \<open>
  C4 as claimed fails: two accepted links that differ by a trailing slash have the same
  canonical form, and each gets a report line.
\<close>

theorem Explore_trailing_slash_counterexample:
  "canonical go_url ''https://x.test/docs/guide/'' = canonical go_url ''https://x.test/docs/guide'' \<and>
   snd (isParentURL go_url (explorer ''https://x.test/docs/guide/page'' False) ''https://x.test/docs/guide'') \<and>
   snd (isParentURL go_url (explorer ''https://x.test/docs/guide/page'' False) ''https://x.test/docs/guide/'') \<and>
   reported (stdout (fst (Explore go_url
       (page_env ''https://x.test/docs/guide/page''
          [''https://x.test/docs/guide'', ''https://x.test/docs/guide/''])
       (explorer ''https://x.test/docs/guide/page'' False)))) =
     [''https://x.test/docs/guide'', ''https://x.test/docs/guide/'']"
  by code_simp

section \<open>The document store\<close>

lemma NewXMLStorage_indexed:
  "NewXMLStorage mkdir now filePath rootURL = Inr s \<Longrightarrow> indexed (Document s) \<and> Pages (Document s) = []"
  by (auto simp: NewXMLStorage_def indexed_def split: option.splits)

lemma indexed_distinct:
  assumes "indexed d"
  shows "distinct (map page_URL (Pages d))"
proof -
  have "i = j" if "i < length (Pages d)" "j < length (Pages d)"
    "page_URL (Pages d ! i) = page_URL (Pages d ! j)" for i j
  proof -
    from assms that(1) have "pagesByURL d (page_URL (Pages d ! i)) = Some i"
      unfolding indexed_def by blast
    moreover from assms that(2) have "pagesByURL d (page_URL (Pages d ! j)) = Some j"
      unfolding indexed_def by blast
    ultimately show ?thesis using that(3) by (metis option.inject)
  qed
  then have "\<forall>i < length (map page_URL (Pages d)). \<forall>j < length (map page_URL (Pages d)).
      i \<noteq> j \<longrightarrow> map page_URL (Pages d) ! i \<noteq> map page_URL (Pages d) ! j"
    by (metis length_map nth_map)
  then show ?thesis by (simp only: distinct_conv_nth)
qed

lemma filter_update_unique:
  assumes d: "distinct (map f xs)" and i: "i < length xs" and k: "f (xs ! i) = k" and fp: "f p = k"
  shows "filter (\<lambda>x. f x = k) (xs[i := p]) = [p]"
  using d i k
proof (induction xs arbitrary: i)
  case Nil
  then show ?case by simp
next
  case (Cons x xs)
  show ?case
  proof (cases i)
    case 0
    with Cons.prems have "x = (x # xs) ! i" "f x = k" by simp_all
    from Cons.prems(1) have "f x \<notin> f ` set xs" by simp
    with \<open>f x = k\<close> have "\<forall>y \<in> set xs. f y \<noteq> k" by (metis imageI)
    then have "filter (\<lambda>x. f x = k) xs = []" by (simp add: filter_empty_conv)
    with 0 fp show ?thesis by simp
  next
    case (Suc j)
    with Cons.prems have j: "j < length xs" "f (xs ! j) = k" by simp_all
    then have "xs ! j \<in> set xs" by simp
    then have "f (xs ! j) \<in> f ` set xs" by (rule imageI)
    moreover from Cons.prems(1) have "f x \<notin> f ` set xs" by simp
    ultimately have "f x \<noteq> k" using j(2) by metis
    moreover have "filter (\<lambda>x. f x = k) (xs[j := p]) = [p]"
    proof -
      from Cons.prems(1) have "distinct (map f xs)" by simp
      from Cons.IH [OF this j] show ?thesis .
    qed
    ultimately show ?thesis using Suc by simp
  qed
qed

lemma filter_update_other:
  assumes i: "i < length xs" and k: "f (xs ! i) = k" and fp: "f p = k" and u: "u \<noteq> k"
  shows "filter (\<lambda>x. f x = u) (xs[i := p]) = filter (\<lambda>x. f x = u) xs"
  using i k
proof (induction xs arbitrary: i)
  case Nil
  then show ?case by simp
next
  case (Cons x xs)
  show ?case
  proof (cases i)
    case 0
    with Cons.prems fp u show ?thesis by auto
  next
    case (Suc j)
    with Cons.prems have "j < length xs" "f (xs ! j) = k" by simp_all
    from Cons.IH [OF this] Suc show ?thesis by simp
  qed
qed

lemma indexed_insert:
  assumes idx: "indexed d" and new: "pagesByURL d k = None" and pk: "page_URL p = k"
  shows "indexed (d\<lparr>Pages := Pages d @ [p], pagesByURL := (pagesByURL d)(k \<mapsto> length (Pages d))\<rparr>)"
    and "filter (\<lambda>x. page_URL x = k) (Pages d) = []"
proof -
  from idx have A: "i < length (Pages d) \<and> page_URL (Pages d ! i) = u" if "pagesByURL d u = Some i" for u i
    using that unfolding indexed_def by blast
  from idx have B: "pagesByURL d (page_URL (Pages d ! i)) = Some i" if "i < length (Pages d)" for i
    using that unfolding indexed_def by blast
  have fresh: "page_URL (Pages d ! i) \<noteq> k" if "i < length (Pages d)" for i
    using B [OF that] new by auto
  then have "\<forall>x \<in> set (Pages d). page_URL x \<noteq> k" by (metis in_set_conv_nth)
  then show "filter (\<lambda>x. page_URL x = k) (Pages d) = []"
    by (simp add: filter_empty_conv)
  show "indexed (d\<lparr>Pages := Pages d @ [p], pagesByURL := (pagesByURL d)(k \<mapsto> length (Pages d))\<rparr>)"
    unfolding indexed_def
  proof (intro conjI allI impI)
    fix u i
    assume h: "pagesByURL (d\<lparr>Pages := Pages d @ [p], pagesByURL := (pagesByURL d)(k \<mapsto> length (Pages d))\<rparr>) u = Some i"
    show "i < length (Pages (d\<lparr>Pages := Pages d @ [p], pagesByURL := (pagesByURL d)(k \<mapsto> length (Pages d))\<rparr>))"
    proof (cases "u = k")
      case True
      with h show ?thesis by simp
    next
      case False
      with h have "pagesByURL d u = Some i" by simp
      from A [OF this] show ?thesis by simp
    qed
    show "page_URL (Pages (d\<lparr>Pages := Pages d @ [p], pagesByURL := (pagesByURL d)(k \<mapsto> length (Pages d))\<rparr>) ! i) = u"
    proof (cases "u = k")
      case True
      with h pk show ?thesis by auto
    next
      case False
      with h have "pagesByURL d u = Some i" by simp
      from A [OF this] show ?thesis by (simp add: nth_append)
    qed
  next
    fix i
    assume "i < length (Pages (d\<lparr>Pages := Pages d @ [p], pagesByURL := (pagesByURL d)(k \<mapsto> length (Pages d))\<rparr>))"
    then have i: "i < Suc (length (Pages d))" by simp
    show "pagesByURL (d\<lparr>Pages := Pages d @ [p], pagesByURL := (pagesByURL d)(k \<mapsto> length (Pages d))\<rparr>)
        (page_URL (Pages (d\<lparr>Pages := Pages d @ [p], pagesByURL := (pagesByURL d)(k \<mapsto> length (Pages d))\<rparr>) ! i)) = Some i"
    proof (cases "i = length (Pages d)")
      case True
      with pk show ?thesis by simp
    next
      case False
      with i have lt: "i < length (Pages d)" by simp
      with fresh [OF lt] B [OF lt] show ?thesis by (simp add: nth_append)
    qed
  qed
qed

lemma indexed_replace:
  assumes idx: "indexed d" and old: "pagesByURL d k = Some i" and pk: "page_URL p = k"
  shows "indexed (d\<lparr>Pages := (Pages d)[i := p]\<rparr>)"
    and "i < length (Pages d)" and "page_URL (Pages d ! i) = k"
proof -
  from idx have A: "j < length (Pages d) \<and> page_URL (Pages d ! j) = u" if "pagesByURL d u = Some j" for u j
    using that unfolding indexed_def by blast
  from idx have B: "pagesByURL d (page_URL (Pages d ! j)) = Some j" if "j < length (Pages d)" for j
    using that unfolding indexed_def by blast
  from A [OF old] show i: "i < length (Pages d)" and ki: "page_URL (Pages d ! i) = k" by simp_all
  have same: "page_URL ((Pages d)[i := p] ! j) = page_URL (Pages d ! j)" if "j < length (Pages d)" for j
    using that pk ki by (cases "j = i") simp_all
  show "indexed (d\<lparr>Pages := (Pages d)[i := p]\<rparr>)"
    unfolding indexed_def
  proof (intro conjI allI impI)
    fix u j
    assume "pagesByURL (d\<lparr>Pages := (Pages d)[i := p]\<rparr>) u = Some j"
    then have "pagesByURL d u = Some j" by simp
    from A [OF this] same [of j]
    show "j < length (Pages (d\<lparr>Pages := (Pages d)[i := p]\<rparr>))"
      and "page_URL (Pages (d\<lparr>Pages := (Pages d)[i := p]\<rparr>) ! j) = u" by simp_all
  next
    fix j
    assume "j < length (Pages (d\<lparr>Pages := (Pages d)[i := p]\<rparr>))"
    then have j: "j < length (Pages d)" by simp
    from B [OF j] same [OF j]
    show "pagesByURL (d\<lparr>Pages := (Pages d)[i := p]\<rparr>) (page_URL (Pages (d\<lparr>Pages := (Pages d)[i := p]\<rparr>) ! j)) = Some j"
      by simp
  qed
qed

lemma XMLSaveNodeContent_effect:
  assumes idx: "indexed (Document s)" and url: "URL (cell h n) = Some u"
  shows "\<exists>s' p. XMLSaveNodeContent L now h s (Some n) content = (s', None) \<and>
           indexed (Document s') \<and>
           distinct (map page_URL (Pages (Document s'))) \<and>
           records_of s' (url_String L u) = [p] \<and>
           page_URL p = url_String L u \<and> Content p = content \<and>
           (\<forall>k. k \<noteq> url_String L u \<longrightarrow> records_of s' k = records_of s k)"
proof -
  define k where "k = url_String L u"
  define p where "p = \<lparr>page_URL = k, page_Title = Title (cell h n), page_Path = Path u,
      LastFetched = now, Content = content, Links = childLinks L h (Children (cell h n))\<rparr>"
  define d where "d = Document s"
  have pk: "page_URL p = k" by (simp add: p_def)
  have pc: "Content p = content" by (simp add: p_def)
  show ?thesis
  proof (cases "pagesByURL d k")
    case None
    define s' where "s' = s\<lparr>Document := d\<lparr>Pages := Pages d @ [p],
        pagesByURL := (pagesByURL d)(k \<mapsto> length (Pages d))\<rparr>\<rparr>"
    have run: "XMLSaveNodeContent L now h s (Some n) content = (s', None)"
      using url None by (simp add: XMLSaveNodeContent_def Let_def k_def [symmetric] p_def [symmetric]
          d_def [symmetric] s'_def)
    from idx have idxd: "indexed d" by (simp add: d_def)
    note ins = indexed_insert [OF idxd None pk]
    have i': "indexed (Document s')" using ins(1) by (simp add: s'_def)
    have r: "records_of s' k = [p]" using ins(2) pk by (simp add: records_of_def s'_def)
    have o: "records_of s' x = records_of s x" if "x \<noteq> k" for x
      using that pk by (auto simp: records_of_def s'_def d_def)
    from run i' indexed_distinct [OF i'] r pk pc o show ?thesis
      unfolding k_def [symmetric] by blast
  next
    case (Some i)
    from idx have idxd: "indexed d" by (simp add: d_def)
    note rep = indexed_replace [OF idxd Some pk]
    define s' where "s' = s\<lparr>Document := d\<lparr>Pages := (Pages d)[i := p]\<rparr>\<rparr>"
    have run: "XMLSaveNodeContent L now h s (Some n) content = (s', None)"
      using url Some rep(2) by (simp add: XMLSaveNodeContent_def Let_def k_def [symmetric]
          p_def [symmetric] d_def [symmetric] s'_def)
    have i': "indexed (Document s')" using rep(1) by (simp add: s'_def)
    have r: "records_of s' k = [p]"
      using filter_update_unique [OF indexed_distinct [OF idxd] rep(2) rep(3) pk]
      by (simp add: records_of_def s'_def)
    have o: "records_of s' x = records_of s x" if "x \<noteq> k" for x
      using filter_update_other [OF rep(2) rep(3) pk that]
      by (simp add: records_of_def s'_def d_def)
    from run i' indexed_distinct [OF i'] r pk pc o show ?thesis
      unfolding k_def [symmetric] by blast
  qed
qed

text \<open>
  C3, as amended. The key of a record is the URL string of the node, \<open>URL.String()\<close>,
  with its fragment and its trailing slashes. On a store whose index agrees with its
  pages (a new store is one) \<open>SaveNodeContent\<close> for a node with a URL returns no error,
  keeps index and pages in agreement, leaves no two records with the same URL string,
  leaves exactly one record under the URL string of the node, holding the content just
  given, and leaves the records under every other URL string as they were. Called twice
  for one URL, it therefore leaves one record with the later content.
\<close>

theorem SaveNodeContent_upsert:
  assumes idx: "indexed (Document s)" and url: "URL (cell h n) = Some u"
  shows "\<exists>s' p. XMLSaveNodeContent L now h s (Some n) content = (s', None) \<and>
           indexed (Document s') \<and>
           distinct (map page_URL (Pages (Document s'))) \<and>
           records_of s' (url_String L u) = [p] \<and>
           page_URL p = url_String L u \<and> Content p = content \<and>
           (\<forall>k. k \<noteq> url_String L u \<longrightarrow> records_of s' k = records_of s k)"
  using idx url by (rule XMLSaveNodeContent_effect)

theorem SaveNodeContent_upsert_witness:
  "indexed (Document (fst (XMLSaveNodeContent go_url ''t1'' (fst docs_tree2) fresh_store (Some 1) ''first''))) \<and>
   URL (cell (fst docs_tree2) 1) = Some (plain_URL ''https'' ''x.test'' ''/docs/a/'' []) \<and>
   map Content (Pages (Document (fst (XMLSaveNodeContent go_url ''t2'' (fst docs_tree2)
      (fst (XMLSaveNodeContent go_url ''t1'' (fst docs_tree2) fresh_store (Some 1) ''first''))
      (Some 1) ''second'')))) = [''second''] \<and>
   map Content (records_of (fst (XMLSaveNodeContent go_url ''t2'' (fst docs_tree2)
      (fst (XMLSaveNodeContent go_url ''t1'' (fst docs_tree2) fresh_store (Some 1) ''first''))
      (Some 1) ''second'')) ''https://x.test/docs/a/'') = [''second'']"
proof -
  let ?h = "fst docs_tree2"
  let ?s1 = "fst (XMLSaveNodeContent go_url ''t1'' ?h fresh_store (Some 1) ''first'')"
  let ?s2 = "fst (XMLSaveNodeContent go_url ''t2'' ?h ?s1 (Some 1) ''second'')"
  have u: "URL (cell ?h 1) = Some (plain_URL ''https'' ''x.test'' ''/docs/a/'' [])" by code_simp
  have k: "url_String go_url (plain_URL ''https'' ''x.test'' ''/docs/a/'' []) = ''https://x.test/docs/a/''"
    by code_simp
  have "NewXMLStorage None ''2025-04-03T10:15:30Z'' ''docs.xml'' ''https://x.test/docs'' = Inr fresh_store"
    by (simp add: fresh_store_def NewXMLStorage_def)
  then have i0: "indexed (Document fresh_store)" using NewXMLStorage_indexed by blast
  from SaveNodeContent_upsert [OF i0 u, of go_url "''t1''" "''first''"]
  have i1: "indexed (Document ?s1)" by auto
  from SaveNodeContent_upsert [OF i1 u, of go_url "''t2''" "''second''"]
  have r: "map Content (records_of ?s2 ''https://x.test/docs/a/'') = [''second'']"
    unfolding k by auto
  have all: "map Content (Pages (Document ?s2)) = [''second'']" by code_simp
  from i1 u r all show ?thesis by simp
qed

text \<open>
  C3 as claimed fails: the key is not the canonical form. The root page
  \<open>https://x.test/prompt-engineering/overview\<close> links to its own section \<open>#intro\<close>; the
  link is accepted, \<open>AddURL\<close> has not seen its canonical form (the root is never marked
  visited), and \<open>Download\<close> ends with two records for one canonical form.
\<close>

theorem store_canonical_counterexample:
  "canonical go_url ''https://x.test/prompt-engineering/overview#intro'' =
     canonical go_url ''https://x.test/prompt-engineering/overview'' \<and>
   map_option (\<lambda>r. (snd r, stored_urls (Storage (fst r))))
     (Download go_url
        (site_env ''https://x.test/prompt-engineering/overview''
           [''https://x.test/prompt-engineering/overview#intro''] [])
        (downloader ''https://x.test/prompt-engineering/overview'' False)) =
   Some (None, [''https://x.test/prompt-engineering/overview'',
                ''https://x.test/prompt-engineering/overview#intro''])"
  by code_simp

section \<open>Download\<close>

subsection \<open>One link\<close>

lemma accepted_parses:
  "snd (isParentURL L s link) \<Longrightarrow> \<exists>pl. url_Parse L link = Inr pl"
  by (cases "url_Parse L link") (auto simp: isParentURL_def split: sum.splits)

lemma sameURL_refl: "sameURL L u u"
  by (simp add: sameURL_def)

lemma FindNode_root:
  assumes "root_ok L s"
  shows "FindNode L (nodes s, WebTree s) (RootURL s) = Some (RootNode (WebTree s))"
proof -
  from assms obtain r u where r: "RootNode (WebTree s) = Some r" "r < next (nodes s)"
    and u: "URL (cell (nodes s) r) = Some u" "url_Parse L (RootURL s) = Inr u"
    unfolding root_ok_def by blast
  from r(2) obtain k where k: "next (nodes s) = Suc k" by (cases "next (nodes s)") simp_all
  have "matches L (nodes s) u r" using u(1) by (simp add: matches_def sameURL_refl)
  with r u k show ?thesis by (simp add: FindNode_def)
qed

lemma report_fields:
  "WebTree (report L link s) = WebTree s" "Storage (report L link s) = Storage s"
  "RootURL (report L link s) = RootURL s" "Debug (report L link s) = Debug s"
  "DownloadAll (report L link s) = DownloadAll s" "nodes (report L link s) = nodes s"
  "fetched (report L link s) = fetched s" "hc_MaxDepth (report L link s) = hc_MaxDepth s"
  by (simp_all add: report_def print_def Let_def)

lemma print_fields:
  "WebTree (print ls s) = WebTree s" "Storage (print ls s) = Storage s"
  "RootURL (print ls s) = RootURL s" "Debug (print ls s) = Debug s"
  "DownloadAll (print ls s) = DownloadAll s" "nodes (print ls s) = nodes s"
  "fetched (print ls s) = fetched s" "PrintedURLs (print ls s) = PrintedURLs s"
  "stdout (print ls s) = stdout s @ ls" "hc_MaxDepth (print ls s) = hc_MaxDepth s"
  by (simp_all add: print_def)

lemma filtered_fields:
  "WebTree (filtered L link s) = WebTree s" "Storage (filtered L link s) = Storage s"
  "RootURL (filtered L link s) = RootURL s" "Debug (filtered L link s) = Debug s"
  "DownloadAll (filtered L link s) = DownloadAll s" "nodes (filtered L link s) = nodes s"
  "fetched (filtered L link s) = fetched s" "PrintedURLs (filtered L link s) = PrintedURLs s"
  "hc_MaxDepth (filtered L link s) = hc_MaxDepth s"
  by (simp_all add: filtered_def print_def)

lemma SaveNodeContent_ok:
  assumes ok: "store_ok st" and url: "URL (cell h n) = Some u"
  shows "\<exists>st'. SaveNodeContent L now h st (Some n) content = (st', None) \<and> store_ok st'"
proof (cases st)
  case NullStorage
  then show ?thesis by (simp add: SaveNodeContent_def store_ok_def)
next
  case (XML x)
  with ok have "indexed (Document x)" by (simp add: store_ok_def)
  from XMLSaveNodeContent_effect [OF this url, of L now content]
  obtain x' where "XMLSaveNodeContent L now h x (Some n) content = (x', None)" "indexed (Document x')"
    by blast
  with XML show ?thesis by (simp add: SaveNodeContent_def store_ok_def)
qed

lemma set_Title_URL: "URL (cell (set_Title h n t) a) = URL (cell h a)"
  by (simp add: set_Title_def)

lemma set_Title_next: "next (set_Title h n t) = next h"
  by (simp add: set_Title_def)

lemma downloadLink_fetch_failed:
  assumes "URL (cell (nodes s) n) = Some u" and "FetchPage E (fetched s) (url_String L u) = Inl err"
  shows "downloadLink L E s n =
           print [PFailedFetch (url_String L u) err] (s\<lparr>fetched := fetched s @ [url_String L u]\<rparr>)"
  using assms by (simp add: downloadLink_def Let_def)

lemma downloadLink_extract_failed:
  assumes "URL (cell (nodes s) n) = Some u" and "FetchPage E (fetched s) (url_String L u) = Inr doc"
    and "ExtractContent E doc = Inl err"
  shows "downloadLink L E s n =
           print [PFailedExtract (url_String L u) err]
             (s\<lparr>fetched := fetched s @ [url_String L u],
                nodes := set_Title (nodes s) n (ExtractTitle E doc)\<rparr>)"
  using assms by (simp add: downloadLink_def Let_def)

lemma downloadLink_effect:
  assumes url: "URL (cell (nodes s) n) = Some u"
  shows "WebTree (downloadLink L E s n) = WebTree s \<and>
         RootURL (downloadLink L E s n) = RootURL s \<and>
         Debug (downloadLink L E s n) = Debug s \<and>
         DownloadAll (downloadLink L E s n) = DownloadAll s \<and>
         next (nodes (downloadLink L E s n)) = next (nodes s) \<and>
         (\<forall>a. URL (cell (nodes (downloadLink L E s n)) a) = URL (cell (nodes s) a)) \<and>
         fetched (downloadLink L E s n) = fetched s @ [url_String L u] \<and>
         (store_ok (Storage s) \<longrightarrow> store_ok (Storage (downloadLink L E s n)))"
proof (cases "FetchPage E (fetched s) (url_String L u)")
  case (Inl err)
  from downloadLink_fetch_failed [OF url Inl] show ?thesis by (simp add: print_def)
next
  case (Inr doc)
  let ?s2 = "s\<lparr>fetched := fetched s @ [url_String L u],
                nodes := set_Title (nodes s) n (ExtractTitle E doc)\<rparr>"
  show ?thesis
  proof (cases "ExtractContent E doc")
    case (Inl err)
    from downloadLink_extract_failed [OF url Inr Inl] show ?thesis
      by (simp add: print_def set_Title_URL set_Title_next)
  next
    case cp: (Inr cp)
    then obtain content pruned where content: "ExtractContent E doc = Inr (content, pruned)"
      by (cases cp) simp
    obtain st r where sv: "SaveNodeContent L (Now E (fetched ?s2)) (nodes ?s2) (Storage ?s2)
        (Some n) content = (st, r)" by (cases "SaveNodeContent L (Now E (fetched ?s2)) (nodes ?s2) (Storage ?s2)
        (Some n) content")
    have dl: "downloadLink L E s n =
        (case r of Some err \<Rightarrow> print [PFailedSave (url_String L u) err] (?s2\<lparr>Storage := st\<rparr>)
                 | None \<Rightarrow> ?s2\<lparr>Storage := st\<rparr>)"
      using url Inr content sv by (simp add: downloadLink_def Let_def split: option.splits)
    have ok: "store_ok st" if "store_ok (Storage s)"
    proof -
      have "URL (cell (nodes ?s2) n) = Some u" using url by (simp add: set_Title_URL)
      from SaveNodeContent_ok [OF _ this, of "Storage ?s2" L "Now E (fetched ?s2)" content] that sv
      show ?thesis by auto
    qed
    show ?thesis unfolding dl using ok
      by (cases r) (simp_all add: print_def set_Title_URL set_Title_next)
  qed
qed

lemma pLAD_rejected:
  assumes "\<not> snd (isParentURL L s link)"
  shows "processLinkAndDownload L E s link =
           Some (filtered L link (print (fst (isParentURL L s link)) s))"
  using assms by (cases "isParentURL L s link") (simp add: processLinkAndDownload_alt)

lemma pLAD_report_only:
  assumes "snd (isParentURL L s link)" and "\<not> DownloadAll s"
  shows "processLinkAndDownload L E s link =
           Some (report L link (print (fst (isParentURL L s link)) s))"
  using assms
  by (cases "isParentURL L s link")
    (simp add: processLinkAndDownload_alt Let_def report_fields print_fields)

lemma pLAD_seen:
  assumes ok: "root_ok L s" and acc: "snd (isParentURL L s link)" and da: "DownloadAll s"
    and pl: "url_Parse L link = Inr pl" and seen: "visited s (normalizeURL L (Some pl))"
  shows "processLinkAndDownload L E s link =
           Some (report L link (print (fst (isParentURL L s link)) s))"
proof -
  obtain dbg where ip: "isParentURL L s link = (dbg, True)"
    using acc by (cases "isParentURL L s link") simp
  let ?s1 = "report L link (print dbg s)"
  have ok1: "root_ok L ?s1" using ok by (simp add: root_ok_def report_fields print_fields)
  have fn: "FindNode L (nodes ?s1, WebTree ?s1) (RootURL ?s1) = Some (RootNode (WebTree ?s1))"
    using ok1 by (rule FindNode_root)
  have "fst (AddURL L (nodes ?s1, WebTree ?s1) link (RootNode (WebTree ?s1))) = (nodes ?s1, WebTree ?s1)"
    using pl seen by (intro AddURL_skip) (simp add: visited_def report_fields print_fields)
  moreover have "snd (AddURL L (nodes ?s1, WebTree ?s1) link (RootNode (WebTree ?s1))) = Inr None"
    using pl seen by (simp add: AddURL_def Let_def visited_def report_fields print_fields)
  ultimately have "AddURL L (nodes ?s1, WebTree ?s1) link (RootNode (WebTree ?s1)) =
      ((nodes ?s1, WebTree ?s1), Inr None)" by (simp add: prod_eq_iff)
  with ip da fn show ?thesis
    by (simp add: processLinkAndDownload_alt Let_def report_fields print_fields)
qed

lemma pLAD_new:
  assumes ok: "root_ok L s" and acc: "snd (isParentURL L s link)" and da: "DownloadAll s"
    and pl: "url_Parse L link = Inr pl" and new: "\<not> visited s (normalizeURL L (Some pl))"
  shows "\<exists>s2. processLinkAndDownload L E s link = Some (downloadLink L E s2 (next (nodes s))) \<and>
           root_ok L s2 \<and> RootURL s2 = RootURL s \<and> Debug s2 = Debug s \<and>
           DownloadAll s2 = DownloadAll s \<and> fetched s2 = fetched s \<and> Storage s2 = Storage s \<and>
           URL (cell (nodes s2) (next (nodes s))) = Some pl \<and>
           visited s2 = (\<lambda>k. visited s k \<or> k = normalizeURL L (Some pl)) \<and>
           stdout s2 = stdout (report L link (print (fst (isParentURL L s link)) s))"
proof -
  obtain dbg where ip: "isParentURL L s link = (dbg, True)"
    using acc by (cases "isParentURL L s link") simp
  let ?s1 = "report L link (print dbg s)"
  from ok obtain r u where r: "RootNode (WebTree s) = Some r" "r < next (nodes s)"
    and u: "URL (cell (nodes s) r) = Some u" "url_Parse L (RootURL s) = Inr u"
    unfolding root_ok_def by blast
  have ok1: "root_ok L ?s1" using ok by (simp add: root_ok_def report_fields print_fields)
  have fn: "FindNode L (nodes ?s1, WebTree ?s1) (RootURL ?s1) = Some (Some r)"
    using FindNode_root [OF ok1] r by (simp add: report_fields print_fields)
  define key where "key = normalizeURL L (Some pl)"
  define nn where "nn = \<lparr>URL = Some pl, Title = [], ContentType = ''text/html'', Children = [],
      Parent = Some r, Depth = Depth (cell (nodes s) r) + 1, Metadata = []\<rparr>"
  define h2 where "h2 = AddChild ((nodes s)\<lparr>cell := (cell (nodes s))(next (nodes s) := nn),
      next := Suc (next (nodes s))\<rparr>) r (Some (next (nodes s)))"
  define t2 where "t2 = (WebTree s)\<lparr>VisitedURLs := (VisitedURLs (WebTree s))(key \<mapsto> True)\<rparr>"
  have fresh: "\<not> lookup_bool (VisitedURLs (WebTree s)) (normalizeURL L (Some pl))"
    using new by (simp add: visited_def)
  have add: "AddURL L (nodes ?s1, WebTree ?s1) link (Some r) = ((h2, t2), Inr (Some (next (nodes s))))"
    using AddURL_fresh [OF pl fresh, of "nodes s" "Some r"]
    by (simp add: report_fields print_fields h2_def t2_def nn_def key_def Let_def)
  define s2 where "s2 = ?s1\<lparr>WebTree := t2, nodes := h2\<rparr>"
  have run: "processLinkAndDownload L E s link = Some (downloadLink L E s2 (next (nodes s)))"
    using ip da fn add
    by (simp add: processLinkAndDownload_alt Let_def report_fields print_fields s2_def)
  have nx: "next h2 = Suc (next (nodes s))" by (simp add: h2_def AddChild_def)
  have ur: "URL (cell h2 r) = Some u" using r(2) u(1) by (simp add: h2_def AddChild_def)
  have un: "URL (cell h2 (next (nodes s))) = Some pl"
    using r(2) by (simp add: h2_def AddChild_def nn_def)
  have ok2: "root_ok L s2"
    unfolding root_ok_def using r u nx ur
    by (simp add: s2_def t2_def report_fields print_fields)
  have vis: "visited s2 = (\<lambda>k. visited s k \<or> k = normalizeURL L (Some pl))"
    by (auto simp: visited_def s2_def t2_def key_def lookup_bool_def fun_eq_iff)
  from run ok2 un vis ip show ?thesis
    by (intro exI [of _ s2]) (simp add: s2_def report_fields print_fields)
qed

lemma requested_Inr: "url_Parse L link = Inr pl \<Longrightarrow> requested L link = url_String L pl"
  by (simp add: requested_def)

lemma seen_of_cong: "WebTree a = WebTree b \<Longrightarrow> seen_of a = seen_of b"
  by (auto simp: seen_of_def visited_def fun_eq_iff split: option.splits)

lemma pLAD_effect:
  assumes ok: "root_ok L s"
  shows "\<exists>s'. processLinkAndDownload L E s link = Some s' \<and> root_ok L s' \<and>
           RootURL s' = RootURL s \<and> Debug s' = Debug s \<and> DownloadAll s' = DownloadAll s \<and>
           fetched s' = fetched s @ (if tries L s link then [requested L link] else []) \<and>
           seen_of s' = (if snd (isParentURL L s link) \<and> DownloadAll s
                         then (\<lambda>k. seen_of s k \<or> k = canonical L link) else seen_of s) \<and>
           (store_ok (Storage s) \<longrightarrow> store_ok (Storage s')) \<and>
           (\<not> tries L s link \<longrightarrow> Storage s' = Storage s)"
proof (cases "snd (isParentURL L s link)")
  case False
  let ?s' = "filtered L link (print (fst (isParentURL L s link)) s)"
  have "root_ok L ?s'" using ok by (simp add: root_ok_def filtered_fields print_fields)
  moreover have "seen_of ?s' = seen_of s"
    by (rule seen_of_cong) (simp add: filtered_fields print_fields)
  ultimately show ?thesis
    using pLAD_rejected [OF False, of E] False
    by (simp add: tries_def filtered_fields print_fields)
next
  case acc: True
  then obtain pl where pl: "url_Parse L link = Inr pl" using accepted_parses by blast
  note can = canonical_Inr [OF pl]
  let ?s1 = "report L link (print (fst (isParentURL L s link)) s)"
  have ok1: "root_ok L ?s1" using ok by (simp add: root_ok_def report_fields print_fields)
  have seen1: "seen_of ?s1 = seen_of s"
    by (rule seen_of_cong) (simp add: report_fields print_fields)
  show ?thesis
  proof (cases "DownloadAll s")
    case False
    with pLAD_report_only [OF acc False, of E] ok1 seen1 acc show ?thesis
      by (simp add: tries_def report_fields print_fields)
  next
    case da: True
    show ?thesis
    proof (cases "visited s (normalizeURL L (Some pl))")
      case True
      have "(\<lambda>k. seen_of s k \<or> k = canonical L link) = seen_of s"
        using True can by (auto simp: seen_of_def fun_eq_iff)
      with pLAD_seen [OF ok acc da pl True, of E] ok1 seen1 acc da True can show ?thesis
        by (simp add: tries_def report_fields print_fields)
    next
      case False
      from pLAD_new [OF ok acc da pl False, of E] obtain s2 where
        run: "processLinkAndDownload L E s link = Some (downloadLink L E s2 (next (nodes s)))"
        and s2: "root_ok L s2" "RootURL s2 = RootURL s" "Debug s2 = Debug s"
          "DownloadAll s2 = DownloadAll s" "fetched s2 = fetched s" "Storage s2 = Storage s"
        and un: "URL (cell (nodes s2) (next (nodes s))) = Some pl"
        and vis: "visited s2 = (\<lambda>k. visited s k \<or> k = normalizeURL L (Some pl))"
        by blast
      let ?s' = "downloadLink L E s2 (next (nodes s))"
      note eff = downloadLink_effect [OF un, of L E]
      from eff s2(1) s2(2) have ok': "root_ok L ?s'" by (simp add: root_ok_def)
      have "visited ?s' = visited s2" using eff by (simp add: visited_def fun_eq_iff)
      with vis can have seen': "seen_of ?s' = (\<lambda>k. seen_of s k \<or> k = canonical L link)"
        by (auto simp: seen_of_def fun_eq_iff split: option.splits)
      have tr: "tries L s link" using acc da can False by (simp add: tries_def)
      from run ok' eff s2 seen' tr acc da show ?thesis
        by (simp add: requested_Inr [OF pl])
    qed
  qed
qed

subsection \<open>The loop over the links\<close>

lemma tries_alt:
  "tries L s link = (snd (isParentURL L s link) \<and> DownloadAll s \<and> \<not> seen_of s (canonical L link))"
  by (simp add: tries_def seen_of_def split: option.splits)

lemma processLinks_effect:
  assumes "root_ok L s"
  shows "\<exists>s'. processLinks L E s links = Some s' \<and> root_ok L s' \<and>
           RootURL s' = RootURL s \<and> Debug s' = Debug s \<and> DownloadAll s' = DownloadAll s \<and>
           fetched s' = fetched s @
             (if DownloadAll s
              then map (requested L)
                     (first_by (canonical L) (seen_of s) (filter (\<lambda>l. snd (isParentURL L s l)) links))
              else []) \<and>
           (store_ok (Storage s) \<longrightarrow> store_ok (Storage s'))"
  using assms
proof (induction links arbitrary: s)
  case Nil
  then show ?case by simp
next
  case (Cons link links)
  from pLAD_effect [OF Cons.prems, of E link] obtain s1 where
    run: "processLinkAndDownload L E s link = Some s1" and ok1: "root_ok L s1"
    and f1: "RootURL s1 = RootURL s" "Debug s1 = Debug s" "DownloadAll s1 = DownloadAll s"
    and fe: "fetched s1 = fetched s @ (if tries L s link then [requested L link] else [])"
    and se: "seen_of s1 = (if snd (isParentURL L s link) \<and> DownloadAll s
                         then (\<lambda>k. seen_of s k \<or> k = canonical L link) else seen_of s)"
    and st: "store_ok (Storage s) \<longrightarrow> store_ok (Storage s1)"
    by blast
  have same: "isParentURL L s1 l = isParentURL L s l" for l
    using f1 by (intro isParentURL_cong) simp_all
  from Cons.IH [OF ok1] obtain s' where
    run': "processLinks L E s1 links = Some s'" and ok': "root_ok L s'"
    and f': "RootURL s' = RootURL s1" "Debug s' = Debug s1" "DownloadAll s' = DownloadAll s1"
    and fe': "fetched s' = fetched s1 @
             (if DownloadAll s1
              then map (requested L)
                     (first_by (canonical L) (seen_of s1) (filter (\<lambda>l. snd (isParentURL L s1 l)) links))
              else [])"
    and st': "store_ok (Storage s1) \<longrightarrow> store_ok (Storage s')"
    by blast
  have fetched: "fetched s' = fetched s @
             (if DownloadAll s
              then map (requested L)
                     (first_by (canonical L) (seen_of s)
                        (filter (\<lambda>l. snd (isParentURL L s l)) (link # links)))
              else [])"
  proof (cases "DownloadAll s")
    case False
    with fe fe' f1 show ?thesis by (simp add: tries_def)
  next
    case da: True
    show ?thesis
    proof (cases "snd (isParentURL L s link)")
      case False
      with fe fe' f1 se da show ?thesis by (simp add: tries_alt same)
    next
      case acc: True
      show ?thesis
      proof (cases "seen_of s (canonical L link)")
        case True
        then have "(\<lambda>k. seen_of s k \<or> k = canonical L link) = seen_of s"
          by (auto simp: fun_eq_iff)
        with fe fe' f1 se da acc True show ?thesis by (simp add: tries_alt same)
      next
        case False
        with fe fe' f1 se da acc show ?thesis by (simp add: tries_alt same)
      qed
    qed
  qed
  from run run' ok' f' f1 fetched st st' show ?case by simp
qed

lemma first_by_subset: "set (first_by f seen xs) \<subseteq> set xs"
  by (induction f seen xs rule: first_by.induct) auto

lemma first_by_unseen: "x \<in> set (first_by f seen xs) \<Longrightarrow> \<not> seen (f x)"
  by (induction f seen xs rule: first_by.induct) (auto split: if_splits)

lemma first_by_distinct: "distinct (map f (first_by f seen xs))"
proof (induction f seen xs rule: first_by.induct)
  case (1 f seen)
  show ?case by simp
next
  case (2 f seen x xs)
  show ?case
  proof (cases "seen (f x)")
    case True
    from 2(1) [OF True] True show ?thesis by simp
  next
    case False
    from 2(2) [OF False]
    have d: "distinct (map f (first_by f (\<lambda>k. seen k \<or> k = f x) xs))" .
    have nin: "f x \<notin> set (map f (first_by f (\<lambda>k. seen k \<or> k = f x) xs))"
    proof
      assume "f x \<in> set (map f (first_by f (\<lambda>k. seen k \<or> k = f x) xs))"
      then obtain y where y: "y \<in> set (first_by f (\<lambda>k. seen k \<or> k = f x) xs)" "f y = f x"
        by auto
      from first_by_unseen [OF y(1)] y(2) show False by simp
    qed
    have "first_by f seen (x # xs) = x # first_by f (\<lambda>k. seen k \<or> k = f x) xs"
      using False by simp
    with d nin show ?thesis by (simp del: first_by.simps)
  qed
qed

lemma first_by_length: "length (first_by f seen xs) \<le> card (f ` set xs)"
proof -
  have "length (first_by f seen xs) = length (map f (first_by f seen xs))" by simp
  also have "\<dots> = card (set (map f (first_by f seen xs)))"
    using first_by_distinct [of f seen xs] by (simp only: distinct_card)
  also have "\<dots> \<le> card (f ` set xs)"
    using first_by_subset [of f seen xs] by (intro card_mono) auto
  finally show ?thesis .
qed

subsection \<open>Failure lines and stored pages\<close>

lemma failure_lines_append: "failure_lines (a @ b) = failure_lines a @ failure_lines b"
  by (simp add: failure_lines_def)

lemma failure_lines_debug: "failure_lines (fst (isParentURL L s link)) = []"
  by (simp add: isParentURL_def failure_lines_def Let_def split: sum.splits)

lemma failure_lines_report: "failure_lines (stdout (report L link s)) = failure_lines (stdout s)"
  by (simp add: report_def print_def Let_def failure_lines_def)

lemma failure_lines_filtered: "failure_lines (stdout (filtered L link s)) = failure_lines (stdout s)"
  by (simp add: filtered_def print_def failure_lines_def)

lemma stored_urls_records:
  "set (stored_urls (XML x)) = {k. records_of x k \<noteq> []}"
  by (auto simp: stored_urls_def records_of_def filter_empty_conv)

lemma SaveNodeContent_urls:
  assumes ok: "store_ok st" and url: "URL (cell h n) = Some u"
    and sv: "SaveNodeContent L now h st (Some n) content = (st', r)"
  shows "r = None \<and> store_ok st' \<and>
         set (stored_urls st') =
           (case st of NullStorage \<Rightarrow> {} | XML x \<Rightarrow> insert (url_String L u) (set (stored_urls st))) \<and>
         (st' = NullStorage \<longleftrightarrow> st = NullStorage)"
proof (cases st)
  case NullStorage
  with sv show ?thesis by (auto simp: SaveNodeContent_def store_ok_def stored_urls_def)
next
  case (XML x)
  with ok have "indexed (Document x)" by (simp add: store_ok_def)
  from XMLSaveNodeContent_effect [OF this url, of L now content]
  obtain x' p where x': "XMLSaveNodeContent L now h x (Some n) content = (x', None)"
    and idx: "indexed (Document x')" and rec: "records_of x' (url_String L u) = [p]"
    and other: "\<forall>k. k \<noteq> url_String L u \<longrightarrow> records_of x' k = records_of x k"
    by blast
  from sv XML x' have st': "st' = XML x'" and r: "r = None" by (simp_all add: SaveNodeContent_def)
  have "records_of x' k \<noteq> [] \<longleftrightarrow> k = url_String L u \<or> records_of x k \<noteq> []" for k
    using rec other by (cases "k = url_String L u") simp_all
  then have "{k. records_of x' k \<noteq> []} = insert (url_String L u) {k. records_of x k \<noteq> []}"
    by blast
  then have "set (stored_urls st') = insert (url_String L u) (set (stored_urls st))"
    unfolding st' XML stored_urls_records .
  with st' r idx XML show ?thesis by (simp add: store_ok_def)
qed

lemma downloadLink_outcome:
  assumes url: "URL (cell (nodes s) n) = Some u" and ok: "store_ok (Storage s)"
  shows "failure_lines (stdout (downloadLink L E s n)) =
           failure_lines (stdout s) @
           failed_of [(url_String L u, attempt E (fetched s) (url_String L u))] \<and>
         set (stored_urls (Storage (downloadLink L E s n))) =
           (case Storage s of
              NullStorage \<Rightarrow> {}
            | XML x \<Rightarrow> set (stored_urls (Storage s)) \<union>
                       set (loaded_of [(url_String L u, attempt E (fetched s) (url_String L u))])) \<and>
         (Storage (downloadLink L E s n) = NullStorage \<longleftrightarrow> Storage s = NullStorage)"
proof -
  have null: "set (stored_urls (Storage s)) =
      (case Storage s of NullStorage \<Rightarrow> {} | XML x \<Rightarrow> set (stored_urls (Storage s)))"
    by (simp add: stored_urls_def split: Storage.splits)
  show ?thesis
  proof (cases "FetchPage E (fetched s) (url_String L u)")
    case (Inl err)
    from downloadLink_fetch_failed [OF url Inl] Inl null show ?thesis
      by (simp add: print_def failure_lines_def failed_of_def loaded_of_def attempt_def
          split: Storage.splits)
  next
    case (Inr doc)
    let ?s2 = "s\<lparr>fetched := fetched s @ [url_String L u],
                  nodes := set_Title (nodes s) n (ExtractTitle E doc)\<rparr>"
    show ?thesis
    proof (cases "ExtractContent E doc")
      case (Inl err)
      from downloadLink_extract_failed [OF url Inr Inl] Inr Inl null show ?thesis
        by (simp add: print_def failure_lines_def failed_of_def loaded_of_def attempt_def
            split: Storage.splits)
    next
      case cp: (Inr cp)
      then obtain content pruned where content: "ExtractContent E doc = Inr (content, pruned)"
        by (cases cp) simp
      obtain st r where sv: "SaveNodeContent L (Now E (fetched ?s2)) (nodes ?s2) (Storage ?s2)
          (Some n) content = (st, r)"
        by (cases "SaveNodeContent L (Now E (fetched ?s2)) (nodes ?s2) (Storage ?s2) (Some n) content")
      have u2: "URL (cell (nodes ?s2) n) = Some u" using url by (simp add: set_Title_URL)
      have ok2: "store_ok (Storage ?s2)" using ok by simp
      from SaveNodeContent_urls [OF ok2 u2 sv]
      have r: "r = None"
        and urls: "set (stored_urls st) =
           (case Storage s of NullStorage \<Rightarrow> {}
            | XML x \<Rightarrow> insert (url_String L u) (set (stored_urls (Storage s))))"
        and nul: "st = NullStorage \<longleftrightarrow> Storage s = NullStorage"
        by (simp_all split: Storage.splits)
      have dl: "downloadLink L E s n = ?s2\<lparr>Storage := st\<rparr>"
        using url Inr content sv r by (simp add: downloadLink_def Let_def)
      show ?thesis unfolding dl using urls nul Inr content
        by (simp add: failed_of_def loaded_of_def attempt_def split: Storage.splits)
    qed
  qed
qed


lemma stored_urls_null:
  "set (stored_urls st) = (case st of NullStorage \<Rightarrow> {} | XML x \<Rightarrow> set (stored_urls st))"
  by (simp add: stored_urls_def split: Storage.splits)

lemma pLAD_outcome:
  assumes ok: "root_ok L s" and store: "store_ok (Storage s)"
    and run: "processLinkAndDownload L E s link = Some s'"
  shows "failure_lines (stdout s') =
           failure_lines (stdout s) @
           (if tries L s link
            then failed_of [(requested L link, attempt E (fetched s) (requested L link))]
            else []) \<and>
         set (stored_urls (Storage s')) =
           (case Storage s of
              NullStorage \<Rightarrow> {}
            | XML x \<Rightarrow> set (stored_urls (Storage s)) \<union>
                (if tries L s link
                 then set (loaded_of [(requested L link, attempt E (fetched s) (requested L link))])
                 else {})) \<and>
         (Storage s' = NullStorage \<longleftrightarrow> Storage s = NullStorage)"
proof (cases "snd (isParentURL L s link)")
  case False
  from pLAD_rejected [OF False, of E] run
  have s': "s' = filtered L link (print (fst (isParentURL L s link)) s)" by simp
  from False have nt: "\<not> tries L s link" by (simp add: tries_def)
  show ?thesis unfolding s' using nt stored_urls_null [of "Storage s"]
    by (simp add: failure_lines_filtered failure_lines_append failure_lines_debug
        filtered_fields print_fields split: Storage.splits)
next
  case acc: True
  then obtain pl where pl: "url_Parse L link = Inr pl" using accepted_parses by blast
  note can = canonical_Inr [OF pl]
  let ?s1 = "report L link (print (fst (isParentURL L s link)) s)"
  have out1: "failure_lines (stdout ?s1) = failure_lines (stdout s)"
    by (simp add: failure_lines_report failure_lines_append failure_lines_debug print_fields)
  have st1: "Storage ?s1 = Storage s" by (simp add: report_fields print_fields)
  have skip: ?thesis if s': "s' = ?s1" and nt: "\<not> tries L s link"
    unfolding s' using nt out1 st1 stored_urls_null [of "Storage s"]
    by (simp split: Storage.splits)
  show ?thesis
  proof (cases "DownloadAll s")
    case False
    from pLAD_report_only [OF acc False, of E] run have "s' = ?s1" by simp
    moreover from False have "\<not> tries L s link" by (simp add: tries_def)
    ultimately show ?thesis by (rule skip)
  next
    case da: True
    show ?thesis
    proof (cases "visited s (normalizeURL L (Some pl))")
      case True
      from pLAD_seen [OF ok acc da pl True, of E] run have "s' = ?s1" by simp
      moreover from True can have "\<not> tries L s link" by (simp add: tries_def)
      ultimately show ?thesis by (rule skip)
    next
      case False
      from pLAD_new [OF ok acc da pl False, of E] run obtain s2 where
        s': "s' = downloadLink L E s2 (next (nodes s))"
        and s2: "fetched s2 = fetched s" "Storage s2 = Storage s"
        and un: "URL (cell (nodes s2) (next (nodes s))) = Some pl"
        and out2: "stdout s2 = stdout ?s1"
        by auto
      have tr: "tries L s link" using acc da can False by (simp add: tries_def)
      have ok2: "store_ok (Storage s2)" using store s2 by simp
      from downloadLink_outcome [OF un ok2, of L E] s2 out2 out1 tr show ?thesis
        unfolding s' by (simp add: requested_Inr [OF pl] split: Storage.splits)
    qed
  qed
qed

lemma link_requests_Cons:
  assumes f1: "RootURL s1 = RootURL s" "Debug s1 = Debug s" "DownloadAll s1 = DownloadAll s"
    and se: "seen_of s1 = (if snd (isParentURL L s link) \<and> DownloadAll s
                           then (\<lambda>k. seen_of s k \<or> k = canonical L link) else seen_of s)"
  shows "link_requests L s (link # links) =
           (if tries L s link then [requested L link] else []) @ link_requests L s1 links"
proof -
  have same: "isParentURL L s1 l = isParentURL L s l" for l
    using f1 by (intro isParentURL_cong) simp_all
  show ?thesis
  proof (cases "DownloadAll s")
    case False
    with f1 show ?thesis by (simp add: link_requests_def tries_def)
  next
    case da: True
    show ?thesis
    proof (cases "snd (isParentURL L s link)")
      case False
      with f1 se da show ?thesis by (simp add: link_requests_def tries_alt same)
    next
      case acc: True
      show ?thesis
      proof (cases "seen_of s (canonical L link)")
        case True
        then have "(\<lambda>k. seen_of s k \<or> k = canonical L link) = seen_of s"
          by (auto simp: fun_eq_iff)
        with f1 se da acc True show ?thesis by (simp add: link_requests_def tries_alt same)
      next
        case False
        with f1 se da acc show ?thesis by (simp add: link_requests_def tries_alt same)
      qed
    qed
  qed
qed

lemma failed_of_Cons: "failed_of (a # as) = failed_of [a] @ failed_of as"
  by (simp add: failed_of_def)

lemma loaded_of_Cons: "loaded_of (a # as) = loaded_of [a] @ loaded_of as"
  by (simp add: loaded_of_def)

lemma processLinks_outcome:
  assumes "root_ok L s" and "store_ok (Storage s)"
  shows "\<exists>s'. processLinks L E s links = Some s' \<and> root_ok L s' \<and> store_ok (Storage s') \<and>
           RootURL s' = RootURL s \<and> Debug s' = Debug s \<and> DownloadAll s' = DownloadAll s \<and>
           fetched s' = fetched s @ link_requests L s links \<and>
           failure_lines (stdout s') =
             failure_lines (stdout s) @
             failed_of (attempts E (fetched s) (link_requests L s links)) \<and>
           set (stored_urls (Storage s')) =
             (case Storage s of
                NullStorage \<Rightarrow> {}
              | XML x \<Rightarrow> set (stored_urls (Storage s)) \<union>
                         set (loaded_of (attempts E (fetched s) (link_requests L s links)))) \<and>
           (Storage s' = NullStorage \<longleftrightarrow> Storage s = NullStorage)"
  using assms
proof (induction links arbitrary: s)
  case Nil
  then show ?case
    using stored_urls_null [of "Storage s"]
    by (simp add: link_requests_def failed_of_def loaded_of_def split: Storage.splits)
next
  case (Cons link links)
  from pLAD_effect [OF Cons.prems(1), of E link] Cons.prems(2) obtain s1 where
    run: "processLinkAndDownload L E s link = Some s1" and ok1: "root_ok L s1"
    and f1: "RootURL s1 = RootURL s" "Debug s1 = Debug s" "DownloadAll s1 = DownloadAll s"
    and fe: "fetched s1 = fetched s @ (if tries L s link then [requested L link] else [])"
    and se: "seen_of s1 = (if snd (isParentURL L s link) \<and> DownloadAll s
                         then (\<lambda>k. seen_of s k \<or> k = canonical L link) else seen_of s)"
    and st: "store_ok (Storage s1)"
    by blast
  note out1 = pLAD_outcome [OF Cons.prems run]
  note req = link_requests_Cons [OF f1 se, of links]
  from Cons.IH [OF ok1 st] obtain s' where
    run': "processLinks L E s1 links = Some s'" and ok': "root_ok L s'" "store_ok (Storage s')"
    and f': "RootURL s' = RootURL s1" "Debug s' = Debug s1" "DownloadAll s' = DownloadAll s1"
    and fe': "fetched s' = fetched s1 @ link_requests L s1 links"
    and out': "failure_lines (stdout s') =
             failure_lines (stdout s1) @
             failed_of (attempts E (fetched s1) (link_requests L s1 links))"
    and urls': "set (stored_urls (Storage s')) =
             (case Storage s1 of
                NullStorage \<Rightarrow> {}
              | XML x \<Rightarrow> set (stored_urls (Storage s1)) \<union>
                         set (loaded_of (attempts E (fetched s1) (link_requests L s1 links))))"
    and nul': "Storage s' = NullStorage \<longleftrightarrow> Storage s1 = NullStorage"
    by blast
  have r: "processLinks L E s (link # links) = Some s'" using run run' by simp
  have fetched: "fetched s' = fetched s @ link_requests L s (link # links)"
    using fe fe' req by simp
  have out: "failure_lines (stdout s') =
             failure_lines (stdout s) @
             failed_of (attempts E (fetched s) (link_requests L s (link # links)))"
  proof (cases "tries L s link")
    case True
    with out1 out' fe req show ?thesis
      by (simp add: failed_of_Cons [of _ "attempts E (fetched s @ [requested L link]) (link_requests L s1 links)"])
  next
    case False
    with out1 out' fe req show ?thesis by simp
  qed
  have urls: "set (stored_urls (Storage s')) =
             (case Storage s of
                NullStorage \<Rightarrow> {}
              | XML x \<Rightarrow> set (stored_urls (Storage s)) \<union>
                         set (loaded_of (attempts E (fetched s) (link_requests L s (link # links)))))"
  proof (cases "Storage s")
    case NullStorage
    with out1 urls' show ?thesis by (simp split: Storage.splits)
  next
    case (XML x)
    with out1 obtain x1 where x1: "Storage s1 = XML x1" by (cases "Storage s1") auto
    show ?thesis
    proof (cases "tries L s link")
      case True
      with out1 urls' fe req XML x1 show ?thesis
        by (simp add: loaded_of_Cons [of _ "attempts E (fetched s @ [requested L link]) (link_requests L s1 links)"]
            Un_assoc)
    next
      case False
      with out1 urls' fe req XML x1 show ?thesis by simp
    qed
  qed
  from out1 nul' have nul: "Storage s' = NullStorage \<longleftrightarrow> Storage s = NullStorage" by simp
  from r ok' f' f1 fetched out urls nul show ?case by simp
qed


subsection \<open>A whole run\<close>

lemma createIndex_id: "createIndex s r = s"
  by (simp add: createIndex_def CreateIndexFile_def split: option.splits)

lemma Download_fetch_failed:
  assumes "FetchPage E (fetched s) (RootURL s) = Inl err"
  shows "Download L E s =
           Some (s\<lparr>stdout := stdout s @ [PDownloading (RootURL s)],
                  fetched := fetched s @ [RootURL s]\<rparr>,
                 Some (Wrapped ''failed to fetch the URL'' err))"
  using assms by (simp add: Download_alt Let_def print_def)

lemma Download_extract_failed:
  assumes ok: "root_ok L s" and page: "FetchPage E (fetched s) (RootURL s) = Inr doc"
    and content: "ExtractContent E doc = Inl err"
  shows "\<exists>s'. Download L E s = Some (s', Some (Wrapped ''failed to extract content'' err)) \<and>
           fetched s' = fetched s @ [RootURL s] \<and> Storage s' = Storage s"
proof -
  from ok obtain r where "RootNode (WebTree s) = Some r" unfolding root_ok_def by blast
  with page content show ?thesis by (simp add: Download_alt Let_def print_def)
qed

lemma Download_run:
  assumes ok: "root_ok L s" and page: "FetchPage E (fetched s) (RootURL s) = Inr doc"
    and content: "ExtractContent E doc = Inr (c, pruned)" and store: "store_ok (Storage s)"
  shows "\<exists>s' root. url_Parse L (RootURL s) = Inr root \<and> Download L E s = Some (s', None) \<and>
           store_ok (Storage s') \<and>
           fetched s' = fetched s @ RootURL s # link_requests L s (anchors E pruned root) \<and>
           failure_lines (stdout s') =
             failure_lines (stdout s) @
             failed_of (attempts E (fetched s @ [RootURL s])
                          (link_requests L s (anchors E pruned root))) \<and>
           set (stored_urls (Storage s')) =
             (case Storage s of
                NullStorage \<Rightarrow> {}
              | XML x \<Rightarrow>
                  set (stored_urls (Storage s)) \<union> {url_String L root} \<union>
                  set (loaded_of (attempts E (fetched s @ [RootURL s])
                                    (link_requests L s (anchors E pruned root)))))"
proof -
  from ok obtain r u where r: "RootNode (WebTree s) = Some r" "r < next (nodes s)"
    and u: "URL (cell (nodes s) r) = Some u" "url_Parse L (RootURL s) = Inr u"
    unfolding root_ok_def by blast
  define s2 where "s2 = s\<lparr>stdout := stdout s @ [PDownloading (RootURL s)],
      fetched := fetched s @ [RootURL s],
      nodes := set_Title (nodes s) r (ExtractTitle E doc)\<rparr>"
  have u2: "URL (cell (nodes s2) r) = Some u" using u(1) by (simp add: s2_def set_Title_URL)
  have ok2: "store_ok (Storage s2)" using store by (simp add: s2_def)
  obtain st rr where sv: "SaveNodeContent L (Now E (fetched s2)) (nodes s2) (Storage s2) (Some r) c
      = (st, rr)"
    by (cases "SaveNodeContent L (Now E (fetched s2)) (nodes s2) (Storage s2) (Some r) c")
  from SaveNodeContent_urls [OF ok2 u2 sv]
  have rr: "rr = None" and st: "store_ok st"
    and urls: "set (stored_urls st) =
      (case Storage s of NullStorage \<Rightarrow> {}
       | XML x \<Rightarrow> insert (url_String L u) (set (stored_urls (Storage s))))"
    and nul: "st = NullStorage \<longleftrightarrow> Storage s = NullStorage"
    by (simp_all add: s2_def split: Storage.splits)
  define s4 where "s4 = print [PFound (length (anchors E pruned u))] (s2\<lparr>Storage := st\<rparr>)"
  have ok4: "root_ok L s4"
    using r u by (simp add: root_ok_def s4_def s2_def print_fields set_Title_URL set_Title_next)
  have st4: "store_ok (Storage s4)" using st by (simp add: s4_def print_fields)
  from processLinks_outcome [OF ok4 st4, of E "anchors E pruned u"] obtain s5 where
    run5: "processLinks L E s4 (anchors E pruned u) = Some s5"
    and st5: "store_ok (Storage s5)"
    and fe5: "fetched s5 = fetched s4 @ link_requests L s4 (anchors E pruned u)"
    and out5: "failure_lines (stdout s5) =
             failure_lines (stdout s4) @
             failed_of (attempts E (fetched s4) (link_requests L s4 (anchors E pruned u)))"
    and urls5: "set (stored_urls (Storage s5)) =
             (case Storage s4 of
                NullStorage \<Rightarrow> {}
              | XML x \<Rightarrow> set (stored_urls (Storage s4)) \<union>
                         set (loaded_of (attempts E (fetched s4)
                                           (link_requests L s4 (anchors E pruned u)))))"
    by blast
  have same: "isParentURL L s4 l = isParentURL L s l" for l
    by (intro isParentURL_cong) (simp_all add: s4_def s2_def print_fields)
  have seen: "seen_of s4 = seen_of s"
    by (rule seen_of_cong) (simp add: s4_def s2_def print_fields)
  have req: "link_requests L s4 links = link_requests L s links" for links
    by (simp add: link_requests_def same seen) (simp add: s4_def s2_def print_fields)
  have el: "ExtractLinks L E pruned (RootURL s2) = Inr (anchors E pruned u)"
    using u(2) by (simp add: ExtractLinks_def s2_def)
  have run: "Download L E s = Some (s5, None)"
    using page r content sv [unfolded s2_def rr] el [unfolded s2_def]
      run5 [unfolded s4_def s2_def print_def]
    by (simp add: Download_alt Let_def print_def createIndex_id)
  have f4: "fetched s4 = fetched s @ [RootURL s]" "Storage s4 = st"
    "failure_lines (stdout s4) = failure_lines (stdout s)"
    by (simp_all add: s4_def s2_def print_fields failure_lines_def)
  have urls': "set (stored_urls (Storage s5)) =
             (case Storage s of
                NullStorage \<Rightarrow> {}
              | XML x \<Rightarrow>
                  set (stored_urls (Storage s)) \<union> {url_String L u} \<union>
                  set (loaded_of (attempts E (fetched s @ [RootURL s])
                                    (link_requests L s (anchors E pruned u)))))"
  proof (cases "Storage s")
    case NullStorage
    with nul urls5 f4 show ?thesis by simp
  next
    case (XML x)
    with nul obtain x' where "st = XML x'" by (cases st) auto
    with urls5 urls f4 XML show ?thesis by (simp add: req)
  qed
  from run u(2) st5 fe5 out5 urls' f4 show ?thesis by (simp add: req)
qed

lemma pLAD_failures:
  assumes ok: "root_ok L s" and tr: "tries L s link" and pl: "url_Parse L link = Inr pl"
    and run: "processLinkAndDownload L E s link = Some s'"
  shows "(\<forall>err. FetchPage E (fetched s) (url_String L pl) = Inl err \<longrightarrow>
            Storage s' = Storage s \<and> last (stdout s') = PFailedFetch (url_String L pl) err) \<and>
         (\<forall>doc err. FetchPage E (fetched s) (url_String L pl) = Inr doc \<and>
            ExtractContent E doc = Inl err \<longrightarrow>
            Storage s' = Storage s \<and> last (stdout s') = PFailedExtract (url_String L pl) err)"
proof -
  from tr pl have acc: "snd (isParentURL L s link)" and da: "DownloadAll s"
    and new: "\<not> visited s (normalizeURL L (Some pl))"
    by (simp_all add: tries_def canonical_Inr)
  from pLAD_new [OF ok acc da pl new, of E] run obtain s2 where
    s': "s' = downloadLink L E s2 (next (nodes s))"
    and s2: "fetched s2 = fetched s" "Storage s2 = Storage s"
    and un: "URL (cell (nodes s2) (next (nodes s))) = Some pl"
    by auto
  have 1: "Storage s' = Storage s \<and> last (stdout s') = PFailedFetch (url_String L pl) err"
    if "FetchPage E (fetched s) (url_String L pl) = Inl err" for err
    using downloadLink_fetch_failed [OF un, of E L err] that s2 s' by (simp add: print_def)
  have 2: "Storage s' = Storage s \<and> last (stdout s') = PFailedExtract (url_String L pl) err"
    if "FetchPage E (fetched s) (url_String L pl) = Inr doc" "ExtractContent E doc = Inl err"
    for doc err
    using downloadLink_extract_failed [OF un, of E L doc err] that s2 s' by (simp add: print_def)
  from 1 2 show ?thesis by blast
qed

text \<open>
  C6. If the fetch of the root page fails, \<open>Download\<close> returns the error
  \<open>failed to fetch the URL\<close>, and the state it leaves differs from the initial one only
  in the first line printed and in the request log: no link was processed, nothing was
  stored. If the root page is fetched and its content extracted, \<open>Download\<close> returns
  success, and it has gone through all the links: it has made a request for every accepted
  link with a new canonical form, in order, whatever the requests before it gave; the
  failure lines it has printed are those of the requests that failed, one for each; and
  the store has gained the root page and the pages of exactly the requests that gave a
  content. For every link, \<open>processLinkAndDownload\<close> returns and leaves a state in which
  the next link can be processed; when the link is one it tries to fetch and the fetch or
  the extraction of content fails, the store is left as it was and the last line printed
  reports the failure.
\<close>

theorem Download_failure_policy:
  "(\<forall>err. FetchPage E (fetched s) (RootURL s) = Inl err \<longrightarrow>
      Download L E s =
        Some (s\<lparr>stdout := stdout s @ [PDownloading (RootURL s)],
                fetched := fetched s @ [RootURL s]\<rparr>,
              Some (Wrapped ''failed to fetch the URL'' err))) \<and>
   (root_ok L s \<and> store_ok (Storage s) \<longrightarrow>
      (\<forall>doc c pruned.
         FetchPage E (fetched s) (RootURL s) = Inr doc \<and> ExtractContent E doc = Inr (c, pruned) \<longrightarrow>
         (\<exists>s' root. url_Parse L (RootURL s) = Inr root \<and> Download L E s = Some (s', None) \<and>
            fetched s' = fetched s @ RootURL s # link_requests L s (anchors E pruned root) \<and>
            failure_lines (stdout s') =
              failure_lines (stdout s) @
              failed_of (attempts E (fetched s @ [RootURL s])
                           (link_requests L s (anchors E pruned root))) \<and>
            set (stored_urls (Storage s')) =
              (case Storage s of
                 NullStorage \<Rightarrow> {}
               | XML x \<Rightarrow>
                   set (stored_urls (Storage s)) \<union> {url_String L root} \<union>
                   set (loaded_of (attempts E (fetched s @ [RootURL s])
                                     (link_requests L s (anchors E pruned root))))))) \<and>
      (\<forall>link. \<exists>s'. processLinkAndDownload L E s link = Some s' \<and> root_ok L s' \<and>
         store_ok (Storage s') \<and>
         (\<forall>pl. tries L s link \<and> url_Parse L link = Inr pl \<longrightarrow>
            (\<forall>err. FetchPage E (fetched s) (url_String L pl) = Inl err \<longrightarrow>
               Storage s' = Storage s \<and> last (stdout s') = PFailedFetch (url_String L pl) err) \<and>
            (\<forall>doc err. FetchPage E (fetched s) (url_String L pl) = Inr doc \<and>
               ExtractContent E doc = Inl err \<longrightarrow>
               Storage s' = Storage s \<and> last (stdout s') = PFailedExtract (url_String L pl) err))))"
proof (intro conjI allI impI)
  fix err assume "FetchPage E (fetched s) (RootURL s) = Inl err"
  then show "Download L E s =
        Some (s\<lparr>stdout := stdout s @ [PDownloading (RootURL s)],
                fetched := fetched s @ [RootURL s]\<rparr>,
              Some (Wrapped ''failed to fetch the URL'' err))"
    by (rule Download_fetch_failed)
next
  fix doc c pruned
  assume "root_ok L s \<and> store_ok (Storage s)"
    and "FetchPage E (fetched s) (RootURL s) = Inr doc \<and> ExtractContent E doc = Inr (c, pruned)"
  then show "\<exists>s' root. url_Parse L (RootURL s) = Inr root \<and> Download L E s = Some (s', None) \<and>
            fetched s' = fetched s @ RootURL s # link_requests L s (anchors E pruned root) \<and>
            failure_lines (stdout s') =
              failure_lines (stdout s) @
              failed_of (attempts E (fetched s @ [RootURL s])
                           (link_requests L s (anchors E pruned root))) \<and>
            set (stored_urls (Storage s')) =
              (case Storage s of
                 NullStorage \<Rightarrow> {}
               | XML x \<Rightarrow>
                   set (stored_urls (Storage s)) \<union> {url_String L root} \<union>
                   set (loaded_of (attempts E (fetched s @ [RootURL s])
                                     (link_requests L s (anchors E pruned root)))))"
    using Download_run [of L s E doc c pruned] by blast
next
  fix link
  assume ok: "root_ok L s \<and> store_ok (Storage s)"
  from pLAD_effect [of L s E link] ok obtain s' where
    run: "processLinkAndDownload L E s link = Some s'" and ok': "root_ok L s'"
    "store_ok (Storage s')" by blast
  from ok have "root_ok L s" by simp
  note fail = pLAD_failures [OF this _ _ run]
  from run ok' fail
  show "\<exists>s'. processLinkAndDownload L E s link = Some s' \<and> root_ok L s' \<and>
         store_ok (Storage s') \<and>
         (\<forall>pl. tries L s link \<and> url_Parse L link = Inr pl \<longrightarrow>
            (\<forall>err. FetchPage E (fetched s) (url_String L pl) = Inl err \<longrightarrow>
               Storage s' = Storage s \<and> last (stdout s') = PFailedFetch (url_String L pl) err) \<and>
            (\<forall>doc err. FetchPage E (fetched s) (url_String L pl) = Inr doc \<and>
               ExtractContent E doc = Inl err \<longrightarrow>
               Storage s' = Storage s \<and> last (stdout s') = PFailedExtract (url_String L pl) err))"
    by blast
qed

lemma NewXMLDownloaderContext_ok:
  assumes "NewXMLDownloaderContext L mkdir now rootURL path base maxDepth debug = Inr s"
  shows "root_ok L (s\<lparr>DownloadAll := b\<rparr>) \<and> store_ok (Storage (s\<lparr>DownloadAll := b\<rparr>)) \<and>
         RootURL s = rootURL \<and> fetched s = [] \<and> stdout s = []"
proof -
  from assms obtain u where u: "url_Parse L rootURL = Inr u"
    by (cases "url_Parse L rootURL")
      (auto simp: NewXMLDownloaderContext_def NewWebTree_def NewWebNode_def)
  from assms u obtain x where x: "NewXMLStorage mkdir now path rootURL = Inr x"
    by (cases "NewXMLStorage mkdir now path rootURL")
      (auto simp: NewXMLDownloaderContext_def NewWebTree_def NewWebNode_def alloc_def)
  from NewXMLStorage_indexed [OF x] have "indexed (Document x)" by simp
  with assms u x show ?thesis
    by (auto simp: NewXMLDownloaderContext_def NewWebTree_def NewWebNode_def alloc_def
        empty_heap_def root_ok_def store_ok_def)
qed

lemma NewExplorerContext_ok:
  assumes "NewExplorerContext L rootURL maxDepth debug = Inr s"
  shows "root_ok L s \<and> store_ok (Storage s)"
proof -
  from assms obtain u where u: "url_Parse L rootURL = Inr u"
    by (cases "url_Parse L rootURL") (auto simp: NewExplorerContext_def NewWebTree_def NewWebNode_def)
  with assms show ?thesis
    by (auto simp: NewExplorerContext_def NewWebTree_def NewWebNode_def alloc_def
        empty_heap_def root_ok_def store_ok_def)
qed

lemma parse_pe_root:
  "url_Parse go_url pe_root = Inr (plain_URL ''https'' ''x.test'' ''/prompt-engineering/overview'' [])"
  by code_simp

lemma downloader_pe:
  "NewXMLDownloaderContext go_url None ''2025-04-03T10:15:30Z'' pe_root ''docs.xml'' pe_root 2 False
     = Inr ((downloader pe_root False)\<lparr>DownloadAll := False\<rparr>)"
  by (simp add: downloader_def NewXMLDownloaderContext_def NewWebTree_def NewWebNode_def
      parse_pe_root alloc_def NewXMLStorage_def)

lemma downloader_pe_ok: "root_ok go_url (downloader pe_root False) \<and> store_ok (Storage (downloader pe_root False))"
  using NewXMLDownloaderContext_ok [OF downloader_pe, of True]
  by (simp add: downloader_def)

theorem Download_failure_policy_witness:
  "root_ok go_url (downloader pe_root False) \<and> store_ok (Storage (downloader pe_root False)) \<and>
   FetchPage (page_env ''https://x.test/none'' []) (fetched (downloader pe_root False))
       (RootURL (downloader pe_root False)) = Inl (Err ''404 Not Found'') \<and>
   map_option (\<lambda>r. (snd r, stored_urls (Storage (fst r)), fetched (fst r)))
       (Download go_url (page_env ''https://x.test/none'' []) (downloader pe_root False))
     = Some (Some (Wrapped ''failed to fetch the URL'' (Err ''404 Not Found'')), [], [pe_root]) \<and>
   FetchPage pe_env (fetched (downloader pe_root False)) (RootURL (downloader pe_root False))
     = Inr [''https://x.test/prompt-engineering/a'', ''https://x.test/prompt-engineering/b''] \<and>
   ExtractContent pe_env
       [''https://x.test/prompt-engineering/a'', ''https://x.test/prompt-engineering/b'']
     = Inr (''text'', [''https://x.test/prompt-engineering/a'', ''https://x.test/prompt-engineering/b'']) \<and>
   map_option (\<lambda>r. (snd r, fetched (fst r), failure_lines (stdout (fst r)),
                     set (stored_urls (Storage (fst r)))))
       (Download go_url pe_env (downloader pe_root False))
     = Some (None,
             [pe_root, ''https://x.test/prompt-engineering/a'', ''https://x.test/prompt-engineering/b''],
             [PFailedFetch ''https://x.test/prompt-engineering/a'' (Err ''404 Not Found'')],
             {pe_root, ''https://x.test/prompt-engineering/b''}) \<and>
   tries go_url (downloader pe_root False) ''https://x.test/prompt-engineering/a'' \<and>
   FetchPage pe_env (fetched (downloader pe_root False)) ''https://x.test/prompt-engineering/a''
     = Inl (Err ''404 Not Found'') \<and>
   map_option (\<lambda>s'. (stored_urls (Storage s'), last (stdout s')))
       (processLinkAndDownload go_url pe_env (downloader pe_root False)
          ''https://x.test/prompt-engineering/a'')
     = Some ([], PFailedFetch ''https://x.test/prompt-engineering/a'' (Err ''404 Not Found''))"
proof -
  let ?s = "downloader pe_root False"
  let ?a = "''https://x.test/prompt-engineering/a''"
  let ?b = "''https://x.test/prompt-engineering/b''"
  let ?root = "plain_URL ''https'' ''x.test'' ''/prompt-engineering/overview'' []"
  note pol = Download_failure_policy [of pe_env ?s go_url]
  have f0: "FetchPage (page_env ''https://x.test/none'' []) (fetched ?s) (RootURL ?s)
      = Inl (Err ''404 Not Found'')" by code_simp
  from Download_failure_policy [of "page_env ''https://x.test/none'' []" ?s go_url] f0
  have d0: "Download go_url (page_env ''https://x.test/none'' []) ?s =
        Some (?s\<lparr>stdout := stdout ?s @ [PDownloading (RootURL ?s)],
                fetched := fetched ?s @ [RootURL ?s]\<rparr>,
              Some (Wrapped ''failed to fetch the URL'' (Err ''404 Not Found'')))" by blast
  have e0: "stored_urls (Storage ?s) = [] \<and> fetched ?s @ [RootURL ?s] = [pe_root]" by code_simp
  have f1: "FetchPage pe_env (fetched ?s) (RootURL ?s) = Inr [?a, ?b]" by code_simp
  have x1: "ExtractContent pe_env [?a, ?b] = Inr (''text'', [?a, ?b])" by code_simp
  from pol downloader_pe_ok f1 x1 obtain s' root where
    root: "url_Parse go_url (RootURL ?s) = Inr root"
    and run: "Download go_url pe_env ?s = Some (s', None)"
    and fe: "fetched s' = fetched ?s @ RootURL ?s # link_requests go_url ?s (anchors pe_env [?a, ?b] root)"
    and out: "failure_lines (stdout s') =
              failure_lines (stdout ?s) @
              failed_of (attempts pe_env (fetched ?s @ [RootURL ?s])
                           (link_requests go_url ?s (anchors pe_env [?a, ?b] root)))"
    and urls: "set (stored_urls (Storage s')) =
              (case Storage ?s of
                 NullStorage \<Rightarrow> {}
               | XML x \<Rightarrow>
                   set (stored_urls (Storage ?s)) \<union> {url_String go_url root} \<union>
                   set (loaded_of (attempts pe_env (fetched ?s @ [RootURL ?s])
                                     (link_requests go_url ?s (anchors pe_env [?a, ?b] root)))))"
    by blast
  have ru: "RootURL ?s = pe_root" by code_simp
  from root parse_pe_root have r: "root = ?root" by (simp add: ru)
  have an: "anchors pe_env d base = d" for d base by (simp add: pe_env_def site_env_def)
  have lr: "link_requests go_url ?s [?a, ?b] = [?a, ?b]" by code_simp
  have at: "attempts pe_env [pe_root] [?a, ?b] =
      [(?a, Inl (PFailedFetch ?a (Err ''404 Not Found''))), (?b, Inr ''text'')]" by code_simp
  have o0: "failure_lines (stdout ?s) = []" by code_simp
  have sr: "url_String go_url ?root = pe_root" by code_simp
  have "case Storage ?s of NullStorage \<Rightarrow> False | XML x \<Rightarrow> True" by code_simp
  then have xs: "\<exists>x. Storage ?s = XML x" by (cases "Storage ?s") simp_all
  have fe': "fetched s' = [pe_root, ?a, ?b]" using fe e0 by (simp add: an lr)
  have lg: "fetched ?s @ [RootURL ?s] = [pe_root]" using e0 by simp
  have out': "failure_lines (stdout s') = [PFailedFetch ?a (Err ''404 Not Found'')]"
    unfolding out an lr lg at o0 by (simp add: failed_of_def)
  have urls': "set (stored_urls (Storage s')) = {pe_root, ?b}"
    using xs e0 unfolding urls an lr lg at r sr by (auto simp: loaded_of_def)
  from run fe' out' urls'
  have whole: "map_option (\<lambda>r. (snd r, fetched (fst r), failure_lines (stdout (fst r)),
                     set (stored_urls (Storage (fst r)))))
       (Download go_url pe_env ?s)
     = Some (None, [pe_root, ?a, ?b], [PFailedFetch ?a (Err ''404 Not Found'')], {pe_root, ?b})"
    by simp
  have t: "tries go_url ?s ?a" by code_simp
  have pa: "url_Parse go_url ?a = Inr (plain_URL ''https'' ''x.test'' ''/prompt-engineering/a'' [])"
    by code_simp
  have sa: "url_String go_url (plain_URL ''https'' ''x.test'' ''/prompt-engineering/a'' []) = ?a"
    by code_simp
  have fa: "FetchPage pe_env (fetched ?s) ?a = Inl (Err ''404 Not Found'')" by code_simp
  note step1 = pol [THEN conjunct2, THEN mp, OF downloader_pe_ok, THEN conjunct2,
      THEN spec [where x = ?a]]
  from step1 obtain s1 where
    run1: "processLinkAndDownload go_url pe_env ?s ?a = Some s1"
    and fail: "\<forall>pl. tries go_url ?s ?a \<and> url_Parse go_url ?a = Inr pl \<longrightarrow>
            (\<forall>err. FetchPage pe_env (fetched ?s) (url_String go_url pl) = Inl err \<longrightarrow>
               Storage s1 = Storage ?s \<and> last (stdout s1) = PFailedFetch (url_String go_url pl) err)"
    by blast
  from fail t pa sa fa
  have "Storage s1 = Storage ?s \<and> last (stdout s1) = PFailedFetch ?a (Err ''404 Not Found'')"
    by (metis (no_types))
  with run1 e0 have step: "map_option (\<lambda>s'. (stored_urls (Storage s'), last (stdout s')))
       (processLinkAndDownload go_url pe_env ?s ?a)
     = Some ([], PFailedFetch ?a (Err ''404 Not Found''))" by simp
  from d0 e0 have fail0: "map_option (\<lambda>r. (snd r, stored_urls (Storage (fst r)), fetched (fst r)))
       (Download go_url (page_env ''https://x.test/none'' []) ?s)
     = Some (Some (Wrapped ''failed to fetch the URL'' (Err ''404 Not Found'')), [], [pe_root])"
    by simp
  from downloader_pe_ok f0 fail0 f1 x1 whole t fa step show ?thesis by blast
qed

subsection \<open>What is fetched\<close>

lemma foldl_processLink_fetched: "fetched (foldl (processLink L) s links) = fetched s"
  by (induction links arbitrary: s) (simp_all add: processLink_effect)

lemma Explore_fetched: "fetched (fst (Explore L E s)) = fetched s @ [RootURL s]"
  by (simp add: Explore_def Let_def foldl_processLink_fetched
      split: sum.splits option.splits)

lemma downloadLink_anchors: "downloadLink L (E\<lparr>anchors := a\<rparr>) s n = downloadLink L E s n"
  by (simp add: downloadLink_def Let_def split: option.splits sum.splits)

lemma pLAD_anchors:
  "processLinkAndDownload L (E\<lparr>anchors := a\<rparr>) s link = processLinkAndDownload L E s link"
  by (simp add: processLinkAndDownload_alt downloadLink_anchors Let_def
      split: option.splits sum.splits prod.splits)

lemma processLinks_anchors: "processLinks L (E\<lparr>anchors := a\<rparr>) s links = processLinks L E s links"
  by (induction links arbitrary: s) (simp_all add: pLAD_anchors split: option.splits)

lemma ExtractLinks_anchors:
  assumes "\<forall>base. a doc base = anchors E doc base"
  shows "ExtractLinks L (E\<lparr>anchors := a\<rparr>) doc u = ExtractLinks L E doc u"
  using assms by (simp add: ExtractLinks_def split: sum.splits)

lemma Download_anchors:
  assumes "\<forall>doc c pruned base. FetchPage E (fetched s) (RootURL s) = Inr doc \<and>
             ExtractContent E doc = Inr (c, pruned) \<longrightarrow> a pruned base = anchors E pruned base"
  shows "Download L (E\<lparr>anchors := a\<rparr>) s = Download L E s"
proof (cases "FetchPage E (fetched s) (RootURL s)")
  case (Inl err)
  then show ?thesis by (simp add: Download_alt Let_def print_def)
next
  case (Inr doc)
  show ?thesis
  proof (cases "ExtractContent E doc")
    case (Inl err)
    with Inr show ?thesis
      by (simp add: Download_alt Let_def print_def split: option.splits)
  next
    case cp: (Inr cp)
    then obtain c pruned where content: "ExtractContent E doc = Inr (c, pruned)"
      by (cases cp) simp
    with assms Inr have "\<forall>base. a pruned base = anchors E pruned base" by blast
    from ExtractLinks_anchors [of a pruned E, OF this] Inr content show ?thesis
      by (simp add: Download_alt Let_def print_def processLinks_anchors
          split: option.splits sum.splits prod.splits)
  qed
qed

lemma Explore_anchors:
  assumes "\<forall>doc base. FetchPage E (fetched s) (RootURL s) = Inr doc \<longrightarrow> a doc base = anchors E doc base"
  shows "Explore L (E\<lparr>anchors := a\<rparr>) s = Explore L E s"
proof (cases "FetchPage E (fetched s) (RootURL s)")
  case (Inl err)
  then show ?thesis by (simp add: Explore_def Let_def)
next
  case (Inr doc)
  with assms have "\<forall>base. a doc base = anchors E doc base" by simp
  from ExtractLinks_anchors [of a doc E, OF this] Inr show ?thesis
    by (simp add: Explore_def Let_def split: option.splits sum.splits)
qed

lemma link_requests_bound:
  "set (link_requests L s links) \<subseteq> requested L ` {l \<in> set links. snd (isParentURL L s l)} \<and>
   length (link_requests L s links) \<le> card {l \<in> set links. snd (isParentURL L s l)}"
proof -
  let ?acc = "filter (\<lambda>l. snd (isParentURL L s l)) links"
  have set_acc: "set ?acc = {l \<in> set links. snd (isParentURL L s l)}" by auto
  have sub: "set (link_requests L s links) \<subseteq> requested L ` set ?acc"
    using first_by_subset [of "canonical L" "seen_of s" ?acc] by (auto simp: link_requests_def)
  have "length (link_requests L s links) \<le> card (canonical L ` set ?acc)"
    using first_by_length [of "canonical L" "seen_of s" ?acc] by (simp add: link_requests_def)
  also have "\<dots> \<le> card (set ?acc)" by (rule card_image_le) simp
  finally have len: "length (link_requests L s links) \<le> card (set ?acc)" .
  from sub len show ?thesis unfolding set_acc by simp
qed

lemma Download_fetches:
  assumes ok: "root_ok L s" and store: "store_ok (Storage s)"
  shows "\<exists>s' r fs. Download L E s = Some (s', r) \<and> fetched s' = fetched s @ RootURL s # fs \<and>
           (\<forall>err. FetchPage E (fetched s) (RootURL s) = Inl err \<longrightarrow> fs = []) \<and>
           (\<forall>doc. FetchPage E (fetched s) (RootURL s) = Inr doc \<longrightarrow>
              (\<forall>err. ExtractContent E doc = Inl err \<longrightarrow> fs = []) \<and>
              (\<forall>c pruned. ExtractContent E doc = Inr (c, pruned) \<longrightarrow>
                 (\<exists>root. url_Parse L (RootURL s) = Inr root \<and>
                    set fs \<subseteq> requested L ` {l \<in> set (anchors E pruned root). snd (isParentURL L s l)} \<and>
                    length fs \<le> card {l \<in> set (anchors E pruned root). snd (isParentURL L s l)})))"
proof (cases "FetchPage E (fetched s) (RootURL s)")
  case (Inl err)
  from Download_fetch_failed [OF Inl, of L] Inl show ?thesis by simp
next
  case (Inr doc)
  show ?thesis
  proof (cases "ExtractContent E doc")
    case (Inl err)
    from Download_extract_failed [OF ok Inr Inl] Inr Inl show ?thesis by auto
  next
    case cp: (Inr cp)
    then obtain c pruned where content: "ExtractContent E doc = Inr (c, pruned)"
      by (cases cp) simp
    from Download_run [OF ok Inr content store] obtain s' root where
      root: "url_Parse L (RootURL s) = Inr root" and run: "Download L E s = Some (s', None)"
      and fe: "fetched s' = fetched s @ RootURL s # link_requests L s (anchors E pruned root)"
      by blast
    from run fe root Inr content link_requests_bound [of L s "anchors E pruned root"]
    show ?thesis
      by (intro exI [of _ s'] exI [of _ None]
          exI [of _ "link_requests L s (anchors E pruned root)"]) simp
  qed
qed

text \<open>
  C7. \<open>Explore\<close> requests the root page and nothing else, in every state, so for every
  \<open>maxDepth\<close>. \<open>Download\<close> requests the root page first and then only URLs of accepted
  links of the root page, at most one for each distinct accepted link, and none at all
  when the root page does not load or has no content. The links of any other page are
  never looked at: replacing the link extraction by one that agrees with it on the root
  page only, as it is fetched and as the extraction of content leaves it, changes nothing
  in either mode.
\<close>

theorem single_level_expansion:
  "fetched (fst (Explore L E s)) = fetched s @ [RootURL s] \<and>
   (root_ok L s \<and> store_ok (Storage s) \<longrightarrow>
      (\<exists>s' r fs. Download L E s = Some (s', r) \<and> fetched s' = fetched s @ RootURL s # fs \<and>
         (\<forall>err. FetchPage E (fetched s) (RootURL s) = Inl err \<longrightarrow> fs = []) \<and>
         (\<forall>doc. FetchPage E (fetched s) (RootURL s) = Inr doc \<longrightarrow>
            (\<forall>err. ExtractContent E doc = Inl err \<longrightarrow> fs = []) \<and>
            (\<forall>c pruned. ExtractContent E doc = Inr (c, pruned) \<longrightarrow>
               (\<exists>root. url_Parse L (RootURL s) = Inr root \<and>
                  set fs \<subseteq> requested L ` {l \<in> set (anchors E pruned root). snd (isParentURL L s l)} \<and>
                  length fs \<le> card {l \<in> set (anchors E pruned root). snd (isParentURL L s l)}))))) \<and>
   (\<forall>a. (\<forall>doc base. FetchPage E (fetched s) (RootURL s) = Inr doc \<longrightarrow>
            a doc base = anchors E doc base \<and>
            (\<forall>c pruned. ExtractContent E doc = Inr (c, pruned) \<longrightarrow>
               a pruned base = anchors E pruned base)) \<longrightarrow>
        Explore L (E\<lparr>anchors := a\<rparr>) s = Explore L E s \<and>
        Download L (E\<lparr>anchors := a\<rparr>) s = Download L E s)"
proof (intro conjI impI allI)
  show "fetched (fst (Explore L E s)) = fetched s @ [RootURL s]" by (rule Explore_fetched)
next
  assume "root_ok L s \<and> store_ok (Storage s)"
  then show "\<exists>s' r fs. Download L E s = Some (s', r) \<and> fetched s' = fetched s @ RootURL s # fs \<and>
         (\<forall>err. FetchPage E (fetched s) (RootURL s) = Inl err \<longrightarrow> fs = []) \<and>
         (\<forall>doc. FetchPage E (fetched s) (RootURL s) = Inr doc \<longrightarrow>
            (\<forall>err. ExtractContent E doc = Inl err \<longrightarrow> fs = []) \<and>
            (\<forall>c pruned. ExtractContent E doc = Inr (c, pruned) \<longrightarrow>
               (\<exists>root. url_Parse L (RootURL s) = Inr root \<and>
                  set fs \<subseteq> requested L ` {l \<in> set (anchors E pruned root). snd (isParentURL L s l)} \<and>
                  length fs \<le> card {l \<in> set (anchors E pruned root). snd (isParentURL L s l)})))"
    using Download_fetches [of L s E] by blast
next
  fix a
  assume h: "\<forall>doc base. FetchPage E (fetched s) (RootURL s) = Inr doc \<longrightarrow>
            a doc base = anchors E doc base \<and>
            (\<forall>c pruned. ExtractContent E doc = Inr (c, pruned) \<longrightarrow>
               a pruned base = anchors E pruned base)"
  then show "Explore L (E\<lparr>anchors := a\<rparr>) s = Explore L E s"
    by (intro Explore_anchors) blast
next
  fix a
  assume h: "\<forall>doc base. FetchPage E (fetched s) (RootURL s) = Inr doc \<longrightarrow>
            a doc base = anchors E doc base \<and>
            (\<forall>c pruned. ExtractContent E doc = Inr (c, pruned) \<longrightarrow>
               a pruned base = anchors E pruned base)"
  then show "Download L (E\<lparr>anchors := a\<rparr>) s = Download L E s"
    by (intro Download_anchors) blast
qed

theorem single_level_expansion_witness:
  "root_ok go_url (downloader pe_root False) \<and> store_ok (Storage (downloader pe_root False)) \<and>
   FetchPage (page_env ''https://x.test/none'' []) (fetched (downloader pe_root False))
       (RootURL (downloader pe_root False)) = Inl (Err ''404 Not Found'') \<and>
   map_option (\<lambda>r. fetched (fst r))
       (Download go_url (page_env ''https://x.test/none'' []) (downloader pe_root False))
     = Some [pe_root] \<and>
   FetchPage pe_env (fetched (downloader pe_root False)) (RootURL (downloader pe_root False))
     = Inr [''https://x.test/prompt-engineering/a'', ''https://x.test/prompt-engineering/b''] \<and>
   ExtractContent pe_env
       [''https://x.test/prompt-engineering/a'', ''https://x.test/prompt-engineering/b'']
     = Inr (''text'', [''https://x.test/prompt-engineering/a'', ''https://x.test/prompt-engineering/b'']) \<and>
   FetchPage pe_env [] ''https://x.test/prompt-engineering/b''
     = Inr [''https://x.test/prompt-engineering/deeper''] \<and>
   snd (isParentURL go_url (downloader pe_root False) ''https://x.test/prompt-engineering/deeper'') \<and>
   fetched (fst (Explore go_url pe_env (explorer pe_root False))) = [pe_root] \<and>
   map_option (\<lambda>r. fetched (fst r)) (Download go_url pe_env (downloader pe_root False))
     = Some [pe_root, ''https://x.test/prompt-engineering/a'', ''https://x.test/prompt-engineering/b''] \<and>
   Download go_url
     (pe_env\<lparr>anchors := (\<lambda>doc base.
         if doc = [''https://x.test/prompt-engineering/a'', ''https://x.test/prompt-engineering/b'']
         then anchors pe_env doc base else [])\<rparr>)
     (downloader pe_root False)
     = Download go_url pe_env (downloader pe_root False)"
proof -
  let ?s = "downloader pe_root False"
  let ?E0 = "page_env ''https://x.test/none'' []"
  let ?links = "[''https://x.test/prompt-engineering/a'', ''https://x.test/prompt-engineering/b'']"
  let ?a = "\<lambda>doc base. if doc = ?links then anchors pe_env doc base else []"
  have f0: "FetchPage ?E0 (fetched ?s) (RootURL ?s) = Inl (Err ''404 Not Found'')" by code_simp
  have l0: "fetched ?s = [] \<and> RootURL ?s = pe_root" by code_simp
  note dl0 = single_level_expansion [of go_url ?E0 ?s, THEN conjunct2, THEN conjunct1,
      THEN mp, OF downloader_pe_ok]
  from dl0 obtain s' r fs where "Download go_url ?E0 ?s = Some (s', r)"
    and "fetched s' = fetched ?s @ RootURL ?s # fs"
    and "\<forall>err. FetchPage ?E0 (fetched ?s) (RootURL ?s) = Inl err \<longrightarrow> fs = []"
    by blast
  with f0 l0 have d0: "map_option (\<lambda>r. fetched (fst r)) (Download go_url ?E0 ?s) = Some [pe_root]"
    by simp
  have f: "FetchPage pe_env (fetched ?s) (RootURL ?s) = Inr ?links" by code_simp
  have x: "ExtractContent pe_env ?links = Inr (''text'', ?links)" by code_simp
  have fb: "FetchPage pe_env [] ''https://x.test/prompt-engineering/b''
     = Inr [''https://x.test/prompt-engineering/deeper'']" by code_simp
  have acc: "snd (isParentURL go_url ?s ''https://x.test/prompt-engineering/deeper'')" by code_simp
  have e0: "fetched (explorer pe_root False) = [] \<and> RootURL (explorer pe_root False) = pe_root"
    by code_simp
  from single_level_expansion [of go_url pe_env "explorer pe_root False"] e0
  have ex: "fetched (fst (Explore go_url pe_env (explorer pe_root False))) = [pe_root]" by simp
  have dl: "map_option (\<lambda>r. fetched (fst r)) (Download go_url pe_env ?s)
     = Some [pe_root, ''https://x.test/prompt-engineering/a'', ''https://x.test/prompt-engineering/b'']"
    by code_simp
  have cond: "\<forall>doc base. FetchPage pe_env (fetched ?s) (RootURL ?s) = Inr doc \<longrightarrow>
      ?a doc base = anchors pe_env doc base \<and>
      (\<forall>c pruned. ExtractContent pe_env doc = Inr (c, pruned) \<longrightarrow>
         ?a pruned base = anchors pe_env pruned base)"
    unfolding f by (simp add: pe_env_def site_env_def)
  note imp = single_level_expansion [of go_url pe_env ?s, THEN conjunct2, THEN conjunct2,
      THEN spec [where x = ?a]]
  from imp [THEN mp, OF cond]
  have an: "Download go_url (pe_env\<lparr>anchors := ?a\<rparr>) ?s = Download go_url pe_env ?s"
    by (rule conjunct2)
  from downloader_pe_ok f0 d0 f x fb acc ex dl an show ?thesis by blast
qed

subsection \<open>The depth parameter\<close>

lemma isParentURL_depth: "isParentURL L (set_depth m m' s) link = isParentURL L s link"
  by (rule isParentURL_cong) (simp_all add: set_depth_def)

lemma print_depth: "print ls (set_depth m m' s) = set_depth m m' (print ls s)"
  by (simp add: print_def set_depth_def)

lemma report_depth: "report L link (set_depth m m' s) = set_depth m m' (report L link s)"
  by (simp add: report_def print_def set_depth_def Let_def)

lemma filtered_depth: "filtered L link (set_depth m m' s) = set_depth m m' (filtered L link s)"
  by (simp add: filtered_def print_def set_depth_def IsVisited_def split: sum.splits)

lemma processLink_depth: "processLink L (set_depth m m' s) link = set_depth m m' (processLink L s link)"
  by (simp add: processLink_alt isParentURL_depth print_depth report_depth filtered_depth
      split: prod.splits)

lemma foldl_processLink_depth:
  "foldl (processLink L) (set_depth m m' s) links = set_depth m m' (foldl (processLink L) s links)"
  by (induction links arbitrary: s) (simp_all add: processLink_depth)

lemma set_depth_fields:
  "RootURL (set_depth m m' s) = RootURL s" "fetched (set_depth m m' s) = fetched s"
  "nodes (set_depth m m' s) = nodes s" "Storage (set_depth m m' s) = Storage s"
  "stdout (set_depth m m' s) = stdout s" "Debug (set_depth m m' s) = Debug s"
  "DownloadAll (set_depth m m' s) = DownloadAll s" "PrintedURLs (set_depth m m' s) = PrintedURLs s"
  "RootNode (WebTree (set_depth m m' s)) = RootNode (WebTree s)"
  "VisitedURLs (WebTree (set_depth m m' s)) = VisitedURLs (WebTree s)"
  "WebTree (set_depth m m' s) = (WebTree s)\<lparr>MaxDepth := m'\<rparr>"
  by (simp_all add: set_depth_def)

lemma set_depth_updates:
  "(set_depth m m' s)\<lparr>fetched := f\<rparr> = set_depth m m' (s\<lparr>fetched := f\<rparr>)"
  "(set_depth m m' s)\<lparr>nodes := h\<rparr> = set_depth m m' (s\<lparr>nodes := h\<rparr>)"
  "(set_depth m m' s)\<lparr>Storage := st\<rparr> = set_depth m m' (s\<lparr>Storage := st\<rparr>)"
  "(set_depth m m' s)\<lparr>stdout := out\<rparr> = set_depth m m' (s\<lparr>stdout := out\<rparr>)"
  "(set_depth m m' s)\<lparr>WebTree := t\<lparr>MaxDepth := m'\<rparr>\<rparr> = set_depth m m' (s\<lparr>WebTree := t\<rparr>)"
  by (simp_all add: set_depth_def)

lemma Explore_depth:
  "Explore L E (set_depth m m' s) = map_prod (set_depth m m') id (Explore L E s)"
  by (simp add: Explore_def Let_def set_depth_fields set_depth_updates foldl_processLink_depth
      split: sum.splits option.splits)

lemma FindNode_depth: "FindNode L (h, t\<lparr>MaxDepth := m'\<rparr>) u = FindNode L (h, t) u"
  by (simp add: FindNode_def split: sum.splits)

lemma AddURL_depth:
  "AddURL L (h, t\<lparr>MaxDepth := m'\<rparr>) link p =
     (case AddURL L (h, t) link p of ((h', t'), r) \<Rightarrow> ((h', t'\<lparr>MaxDepth := m'\<rparr>), r))"
  by (simp add: AddURL_def Let_def split: sum.splits prod.splits)

lemma downloadLink_depth:
  "downloadLink L E (set_depth m m' s) n = set_depth m m' (downloadLink L E s n)"
  by (simp add: downloadLink_def Let_def set_depth_fields set_depth_updates print_depth
      split: option.splits sum.splits prod.splits)

lemma pLAD_depth:
  "processLinkAndDownload L E (set_depth m m' s) link =
     map_option (set_depth m m') (processLinkAndDownload L E s link)"
proof (cases "isParentURL L s link")
  case (Pair dbg acc)
  let ?s1 = "report L link (print dbg s)"
  have s1: "report L link (print dbg (set_depth m m' s)) = set_depth m m' ?s1"
    by (simp add: print_depth report_depth)
  show ?thesis
  proof (cases "acc \<and> DownloadAll s")
    case False
    with Pair s1 show ?thesis
      by (auto simp: processLinkAndDownload_alt isParentURL_depth Let_def set_depth_fields
          report_fields print_fields filtered_depth print_depth)
  next
    case True
    have fn: "FindNode L (nodes (set_depth m m' ?s1), WebTree (set_depth m m' ?s1))
        (RootURL (set_depth m m' ?s1)) = FindNode L (nodes ?s1, WebTree ?s1) (RootURL ?s1)"
      by (simp add: set_depth_fields FindNode_depth)
    show ?thesis
    proof (cases "FindNode L (nodes ?s1, WebTree ?s1) (RootURL ?s1)")
      case None
      with Pair True s1 fn show ?thesis
        by (simp add: processLinkAndDownload_alt isParentURL_depth Let_def set_depth_fields
            report_fields print_fields)
    next
      case (Some parent)
      obtain h t r where add: "AddURL L (nodes ?s1, WebTree ?s1) link parent = ((h, t), r)"
        by (cases "AddURL L (nodes ?s1, WebTree ?s1) link parent") auto
      have add': "AddURL L (nodes (set_depth m m' ?s1), WebTree (set_depth m m' ?s1)) link parent
          = ((h, t\<lparr>MaxDepth := m'\<rparr>), r)"
        using add by (simp add: set_depth_fields AddURL_depth)
      have s2: "(set_depth m m' ?s1)\<lparr>WebTree := t\<lparr>MaxDepth := m'\<rparr>, nodes := h\<rparr> =
          set_depth m m' (?s1\<lparr>WebTree := t, nodes := h\<rparr>)"
        by (simp add: set_depth_def)
      have lhs: "processLinkAndDownload L E (set_depth m m' s) link =
          (case r of Inl err \<Rightarrow> Some (set_depth m m' (?s1\<lparr>WebTree := t, nodes := h\<rparr>))
           | Inr None \<Rightarrow> Some (set_depth m m' (?s1\<lparr>WebTree := t, nodes := h\<rparr>))
           | Inr (Some n) \<Rightarrow> Some (downloadLink L E (set_depth m m' (?s1\<lparr>WebTree := t, nodes := h\<rparr>)) n))"
        using Pair True s1 fn Some add' s2
        by (simp add: processLinkAndDownload_alt isParentURL_depth Let_def set_depth_fields
            report_fields print_fields split: sum.splits option.splits)
      have rhs: "processLinkAndDownload L E s link =
          (case r of Inl err \<Rightarrow> Some (?s1\<lparr>WebTree := t, nodes := h\<rparr>)
           | Inr None \<Rightarrow> Some (?s1\<lparr>WebTree := t, nodes := h\<rparr>)
           | Inr (Some n) \<Rightarrow> Some (downloadLink L E (?s1\<lparr>WebTree := t, nodes := h\<rparr>) n))"
        using Pair True Some add
        by (simp add: processLinkAndDownload_alt Let_def report_fields print_fields)
      show ?thesis unfolding lhs rhs
        by (simp add: downloadLink_depth split: sum.splits option.splits)
    qed
  qed
qed

lemma processLinks_depth:
  "processLinks L E (set_depth m m' s) links = map_option (set_depth m m') (processLinks L E s links)"
  by (induction links arbitrary: s) (simp_all add: pLAD_depth split: option.splits)

lemma Download_depth:
  "Download L E (set_depth m m' s) = map_option (map_prod (set_depth m m') id) (Download L E s)"
  by (simp add: Download_alt Let_def set_depth_fields set_depth_updates print_depth
      processLinks_depth createIndex_id split: sum.splits option.splits prod.splits)

lemma depthless_set_depth: "depthless (set_depth m m' s) = depthless s"
  by (simp add: depthless_def set_depth_def)

lemma NewExplorerContext_depth:
  "NewExplorerContext L rootURL m debug =
     map_sum id (set_depth m m) (NewExplorerContext L rootURL 0 debug)"
  by (simp add: NewExplorerContext_def NewWebTree_def set_depth_def split: sum.splits prod.splits)

lemma NewXMLDownloaderContext_depth:
  "NewXMLDownloaderContext L mkdir now rootURL path base m debug =
     map_sum id (set_depth m m) (NewXMLDownloaderContext L mkdir now rootURL path base 0 debug)"
  by (simp add: NewXMLDownloaderContext_def NewWebTree_def set_depth_def
      split: sum.splits prod.splits)

lemma Explore_depthless:
  "map_prod depthless id (Explore L E (set_depth m m' s)) = map_prod depthless id (Explore L E s)"
  by (cases "Explore L E s") (simp add: Explore_depth depthless_set_depth)

lemma Download_depthless:
  "map_option (map_prod depthless id) (Download L E ((set_depth m m' s)\<lparr>DownloadAll := da\<rparr>)) =
   map_option (map_prod depthless id) (Download L E (s\<lparr>DownloadAll := da\<rparr>))"
proof -
  have "(set_depth m m' s)\<lparr>DownloadAll := da\<rparr> = set_depth m m' (s\<lparr>DownloadAll := da\<rparr>)"
    by (simp add: set_depth_def)
  then show ?thesis
    by (cases "Download L E (s\<lparr>DownloadAll := da\<rparr>)")
      (auto simp: Download_depth depthless_set_depth)
qed

lemma Explore_any_depth:
  "map_sum id (\<lambda>s. map_prod depthless id (Explore L E s)) (NewExplorerContext L rootURL m debug) =
   map_sum id (\<lambda>s. map_prod depthless id (Explore L E s)) (NewExplorerContext L rootURL 0 debug)"
  by (cases "NewExplorerContext L rootURL 0 debug")
    (simp_all add: NewExplorerContext_depth [of L rootURL m debug] Explore_depthless)

lemma Download_any_depth:
  "map_sum id (\<lambda>s. map_option (map_prod depthless id) (Download L E (s\<lparr>DownloadAll := da\<rparr>)))
     (NewXMLDownloaderContext L mkdir now rootURL path base m debug) =
   map_sum id (\<lambda>s. map_option (map_prod depthless id) (Download L E (s\<lparr>DownloadAll := da\<rparr>)))
     (NewXMLDownloaderContext L mkdir now rootURL path base 0 debug)"
  by (cases "NewXMLDownloaderContext L mkdir now rootURL path base 0 debug")
    (simp_all add: NewXMLDownloaderContext_depth [of L mkdir now rootURL path base m debug]
      Download_depthless)

text \<open>
  C10. \<open>Explore\<close> and \<open>Download\<close> never read \<open>MaxDepth\<close>: run from a state with other
  values in the two depth fields, they return the same error and the same state up to
  those two fields. So for two values of \<open>maxDepth\<close> the contexts the constructors build
  give runs that agree on everything printed, requested, stored, visited and allocated.
\<close>

theorem maxDepth_has_no_effect:
  "Explore L E (set_depth m m' s) = map_prod (set_depth m m') id (Explore L E s) \<and>
   Download L E (set_depth m m' s) = map_option (map_prod (set_depth m m') id) (Download L E s) \<and>
   map_sum id (\<lambda>s. map_prod depthless id (Explore L E s))
     (NewExplorerContext L rootURL m1 debug) =
   map_sum id (\<lambda>s. map_prod depthless id (Explore L E s))
     (NewExplorerContext L rootURL m2 debug) \<and>
   map_sum id (\<lambda>s. map_option (map_prod depthless id) (Download L E (s\<lparr>DownloadAll := da\<rparr>)))
     (NewXMLDownloaderContext L mkdir now rootURL path base m1 debug) =
   map_sum id (\<lambda>s. map_option (map_prod depthless id) (Download L E (s\<lparr>DownloadAll := da\<rparr>)))
     (NewXMLDownloaderContext L mkdir now rootURL path base m2 debug)"
  by (simp only: Explore_depth Download_depth
      Explore_any_depth [of L E rootURL m1] Explore_any_depth [of L E rootURL m2]
      Download_any_depth [of L E da mkdir now rootURL path base m1]
      Download_any_depth [of L E da mkdir now rootURL path base m2] simp_thms)

theorem maxDepth_has_no_effect_witness:
  "map_sum id (\<lambda>s. map_option (map_prod depthless id) (Download go_url pe_env (s\<lparr>DownloadAll := True\<rparr>)))
     (NewXMLDownloaderContext go_url None ''2025-04-03T10:15:30Z'' pe_root ''docs.xml'' pe_root 1 False) =
   map_sum id (\<lambda>s. map_option (map_prod depthless id) (Download go_url pe_env (s\<lparr>DownloadAll := True\<rparr>)))
     (NewXMLDownloaderContext go_url None ''2025-04-03T10:15:30Z'' pe_root ''docs.xml'' pe_root 5 False) \<and>
   map_sum id (\<lambda>s. map_option (\<lambda>r. fetched (fst r)) (Download go_url pe_env (s\<lparr>DownloadAll := True\<rparr>)))
     (NewXMLDownloaderContext go_url None ''2025-04-03T10:15:30Z'' pe_root ''docs.xml'' pe_root 1 False) =
   Inr (Some [pe_root, ''https://x.test/prompt-engineering/a'', ''https://x.test/prompt-engineering/b'']) \<and>
   map_sum id (\<lambda>s. map_option (\<lambda>r. fetched (fst r)) (Download go_url pe_env (s\<lparr>DownloadAll := True\<rparr>)))
     (NewXMLDownloaderContext go_url None ''2025-04-03T10:15:30Z'' pe_root ''docs.xml'' pe_root 5 False) =
   Inr (Some [pe_root, ''https://x.test/prompt-engineering/a'', ''https://x.test/prompt-engineering/b''])"
proof -
  note t = maxDepth_has_no_effect [of go_url pe_env 1 5 "downloader pe_root False" pe_root 1 False 5
      True None "''2025-04-03T10:15:30Z''" "''docs.xml''" pe_root]
  from t have 1: "map_sum id (\<lambda>s. map_option (map_prod depthless id) (Download go_url pe_env (s\<lparr>DownloadAll := True\<rparr>)))
     (NewXMLDownloaderContext go_url None ''2025-04-03T10:15:30Z'' pe_root ''docs.xml'' pe_root 1 False) =
   map_sum id (\<lambda>s. map_option (map_prod depthless id) (Download go_url pe_env (s\<lparr>DownloadAll := True\<rparr>)))
     (NewXMLDownloaderContext go_url None ''2025-04-03T10:15:30Z'' pe_root ''docs.xml'' pe_root 5 False)"
    by (elim conjE)
  have 2: "map_sum id (\<lambda>s. map_option (\<lambda>r. fetched (fst r)) (Download go_url pe_env (s\<lparr>DownloadAll := True\<rparr>)))
     (NewXMLDownloaderContext go_url None ''2025-04-03T10:15:30Z'' pe_root ''docs.xml'' pe_root 1 False) =
   Inr (Some [pe_root, ''https://x.test/prompt-engineering/a'', ''https://x.test/prompt-engineering/b''])"
    by code_simp
  have 3: "map_sum id (\<lambda>s. map_option (\<lambda>r. fetched (fst r)) (Download go_url pe_env (s\<lparr>DownloadAll := True\<rparr>)))
     (NewXMLDownloaderContext go_url None ''2025-04-03T10:15:30Z'' pe_root ''docs.xml'' pe_root 5 False) =
   Inr (Some [pe_root, ''https://x.test/prompt-engineering/a'', ''https://x.test/prompt-engineering/b''])"
    by code_simp
  from 1 2 3 show ?thesis by (intro conjI)
qed

end
